theory Spec2Isabelle
  imports Main "HOL-Library.Word"
begin

section \<open>Memory model of cache.h\<close>

text \<open>
  Blocks live in a heap of addresses. \<^verbatim>\<open>malloc\<close> hands out the next unused address
  (\<open>brk\<close>) and \<^verbatim>\<open>free\<close> clears the cell, so that a read through a dangling pointer is
  visible as an error. The \<^verbatim>\<open>ssize_t\<close> fields are \<open>int\<close>: every value below stays far
  from the 64-bit limits, where C leaves signed overflow undefined anyway. \<^verbatim>\<open>NULL\<close> is
  \<open>None\<close>; the \<^verbatim>\<open>uri\<close> and \<^verbatim>\<open>text\<close> buffers of a block are held in the block and are
  released with it, as \<^verbatim>\<open>block_free\<close> releases all three together.
\<close>

type_synonym addr = nat

record cblock =
  text_len :: int
  ref_cont :: int
  next_b :: addr
  prev_b :: addr
  uri :: "string option"
  text_b :: "string option"

record cinfo =
  size_c :: int
  start :: "addr option"

record cstate =
  heap :: "addr \<Rightarrow> cblock option"
  brk :: addr
  cache :: "cinfo option"
  mutex :: bool

definition MAX_CACHE_SIZE :: int where
  "MAX_CACHE_SIZE = 1024 * 1024"

definition MAX_OBJECT_SIZE :: int where
  "MAX_OBJECT_SIZE = 100 * 1024"

text \<open>
  A call either never returns (\<open>None\<close>: a busy-wait that is never released, a lock that
  is never granted), or stops the process (\<open>Inl\<close>), or returns a value and the new state.
\<close>

datatype error = Segfault | Memory_error

type_synonym 'a prog = "cstate \<Rightarrow> (error + 'a \<times> cstate) option"

definition ret :: "'a \<Rightarrow> 'a prog" where
  "ret x s = Some (Inr (x, s))"

definition abort :: "error \<Rightarrow> 'a prog" where
  "abort e s = Some (Inl e)"

definition bnd :: "'a prog \<Rightarrow> ('a \<Rightarrow> 'b prog) \<Rightarrow> 'b prog" where
  "bnd m k s =
     (case m s of
        None \<Rightarrow> None
      | Some r \<Rightarrow> (case r of Inl e \<Rightarrow> Some (Inl e) | Inr p \<Rightarrow> k (fst p) (snd p)))"

text \<open>\<^verbatim>\<open>p->f\<close> as a read and \<^verbatim>\<open>p->f = v\<close> as a write; both fault on a cell that is not
  allocated.\<close>

definition load :: "addr \<Rightarrow> cblock prog" where
  "load p s = (case heap s p of None \<Rightarrow> Some (Inl Segfault) | Some b \<Rightarrow> Some (Inr (b, s)))"

definition store :: "addr \<Rightarrow> (cblock \<Rightarrow> cblock) \<Rightarrow> unit prog" where
  "store p f s =
     (case heap s p of
        None \<Rightarrow> Some (Inl Segfault)
      | Some b \<Rightarrow> Some (Inr ((), s\<lparr>heap := (heap s)(p \<mapsto> f b)\<rparr>)))"

definition load_cache :: "cinfo prog" where
  "load_cache s = (case cache s of None \<Rightarrow> Some (Inl Segfault) | Some c \<Rightarrow> Some (Inr (c, s)))"

definition store_cache :: "(cinfo \<Rightarrow> cinfo) \<Rightarrow> unit prog" where
  "store_cache f s =
     (case cache s of
        None \<Rightarrow> Some (Inl Segfault)
      | Some c \<Rightarrow> Some (Inr ((), s\<lparr>cache := Some (f c)\<rparr>)))"

text \<open>The mutex is not recursive: locking it while it is held never returns.\<close>

definition pthread_mutex_lock :: "unit prog" where
  "pthread_mutex_lock s = (if mutex s then None else Some (Inr ((), s\<lparr>mutex := True\<rparr>)))"

definition pthread_mutex_unlock :: "unit prog" where
  "pthread_mutex_unlock s = Some (Inr ((), s\<lparr>mutex := False\<rparr>))"

lemma bnd_mono [partial_function_mono]:
  assumes "\<And>x s'. mono_option (\<lambda>f. K f x s')"
  shows "mono_option (\<lambda>f. bnd m (K f) s)"
  unfolding bnd_def
  apply (cases "m s")
   apply (simp add: option.const_mono)
  subgoal for r
    apply (cases r)
     apply (simp add: option.const_mono)
    apply (simp add: assms)
    done
  done

lemma if_prog_mono [partial_function_mono]:
  assumes "mono_option (\<lambda>f. A f s)" and "mono_option (\<lambda>f. B f s)"
  shows "mono_option (\<lambda>f. (if c then A f else B f) s)"
  using assms by (cases c) simp_all

lemma case_option_prog_mono [partial_function_mono]:
  assumes "mono_option (\<lambda>f. A f s)" and "\<And>v. mono_option (\<lambda>f. B f v s)"
  shows "mono_option (\<lambda>f. (case x of None \<Rightarrow> A f | Some v \<Rightarrow> B f v) s)"
  using assms by (cases x) simp_all

section \<open>cache.c\<close>

definition cache_init :: "unit prog" where
  "cache_init s = Some (Inr ((), s\<lparr>cache := Some \<lparr>size_c = 0, start = None\<rparr>, mutex := False\<rparr>))"

text \<open>\<^verbatim>\<open>block_free\<close>: \<^verbatim>\<open>while (1) { if (block->ref_cont == 0) { free ...; return; } }\<close>.
  Nothing inside the loop changes the count.\<close>

partial_function (option) block_free :: "addr \<Rightarrow> cstate \<Rightarrow> (error + unit \<times> cstate) option" where
  "block_free block s =
     (case heap s block of
        None \<Rightarrow> Some (Inl Segfault)
      | Some b \<Rightarrow>
          if ref_cont b = 0 then Some (Inr ((), s\<lparr>heap := (heap s)(block := None)\<rparr>))
          else block_free block s)"

definition block_empty :: "addr prog" where
  "block_empty s =
     (let block = brk s in
      Some (Inr (block,
        s\<lparr>heap := (heap s)(block \<mapsto>
              \<lparr>text_len = 0, ref_cont = 0, next_b = block, prev_b = block,
               uri = None, text_b = None\<rparr>),
          brk := Suc block\<rparr>)))"

text \<open>\<^verbatim>\<open>block_new\<close> takes the length as \<^verbatim>\<open>size_t\<close>: a negative \<^verbatim>\<open>ssize_t\<close> becomes a
  request for more than \<open>2^63\<close> bytes, which \<^verbatim>\<open>malloc_w\<close> answers with \<^verbatim>\<open>exit(1)\<close>; a
  length beyond the source buffer makes \<^verbatim>\<open>memcpy\<close> read past it.\<close>

definition block_new :: "string \<Rightarrow> string \<Rightarrow> int \<Rightarrow> addr prog" where
  "block_new u t tlen =
     bnd block_empty (\<lambda>block.
     bnd (store block (\<lambda>b. b\<lparr>text_len := tlen\<rparr>)) (\<lambda>_.
     if tlen < 0 then abort Memory_error
     else if int (length t) < tlen then abort Segfault
     else
     bnd (store block (\<lambda>b. b\<lparr>uri := Some u\<rparr>)) (\<lambda>_.
     bnd (store block (\<lambda>b. b\<lparr>text_b := Some (take (nat tlen) t)\<rparr>)) (\<lambda>_.
     ret block))))"

partial_function (option) findblock_loop ::
    "string \<Rightarrow> addr \<Rightarrow> cstate \<Rightarrow> (error + addr option \<times> cstate) option" where
  "findblock_loop u cur s =
     bnd (load cur) (\<lambda>b.
       case uri b of
         None \<Rightarrow> abort Segfault
       | Some v \<Rightarrow>
           if u = v then ret (Some cur)
           else bnd load_cache (\<lambda>c.
                if Some (next_b b) \<noteq> start c then findblock_loop u (next_b b)
                else ret None)) s"

definition cache_findblock :: "string \<Rightarrow> addr option prog" where
  "cache_findblock u =
     bnd load_cache (\<lambda>c.
       case start c of
         None \<Rightarrow> ret None
       | Some cur \<Rightarrow> findblock_loop u cur)"

definition cache_addblock :: "addr \<Rightarrow> unit prog" where
  "cache_addblock block =
     bnd load_cache (\<lambda>c.
     bnd (case start c of
            None \<Rightarrow> store_cache (\<lambda>c. c\<lparr>start := Some block\<rparr>)
          | Some st \<Rightarrow>
              bnd (store block (\<lambda>b. b\<lparr>next_b := st\<rparr>)) (\<lambda>_.
              bnd (load st) (\<lambda>sb.
              bnd (store block (\<lambda>b. b\<lparr>prev_b := prev_b sb\<rparr>)) (\<lambda>_.
              bnd (load block) (\<lambda>b.
              bnd (store (prev_b b) (\<lambda>p. p\<lparr>next_b := block\<rparr>)) (\<lambda>_.
              bnd (load block) (\<lambda>b.
              bnd (store (next_b b) (\<lambda>n. n\<lparr>prev_b := block\<rparr>)) (\<lambda>_.
              store_cache (\<lambda>c. c\<lparr>start := Some block\<rparr>))))))))) (\<lambda>_.
     bnd (store block (\<lambda>b. b\<lparr>ref_cont := ref_cont b + 1\<rparr>)) (\<lambda>_.
     bnd (load block) (\<lambda>b.
     store_cache (\<lambda>c. c\<lparr>size_c := size_c c + text_len b\<rparr>)))))"

text \<open>\<^verbatim>\<open>cache_remblock\<close> up to its last statement: the block at the end of the list is
  unlinked and its count decremented; the result is the block handed to
  \<^verbatim>\<open>block_free\<close>.\<close>

definition cache_remblock_unlink :: "addr prog" where
  "cache_remblock_unlink =
     bnd load_cache (\<lambda>c.
     case start c of
       None \<Rightarrow> abort Segfault
     | Some st \<Rightarrow>
         bnd (load st) (\<lambda>sb. let rem = prev_b sb in
         bnd (load rem) (\<lambda>rb. let prev_new = prev_b rb in
         bnd (store prev_new (\<lambda>p. p\<lparr>next_b := st\<rparr>)) (\<lambda>_.
         bnd (store st (\<lambda>b. b\<lparr>prev_b := prev_new\<rparr>)) (\<lambda>_.
         bnd (load rem) (\<lambda>rb.
         bnd (store_cache (\<lambda>c. c\<lparr>size_c := size_c c - text_len rb\<rparr>)) (\<lambda>_.
         bnd (if rem = st then store_cache (\<lambda>c. c\<lparr>start := None\<rparr>) else ret ()) (\<lambda>_.
         bnd (store rem (\<lambda>b. b\<lparr>ref_cont := ref_cont b - 1\<rparr>)) (\<lambda>_.
         ret rem)))))))))"

definition cache_remblock :: "unit prog" where
  "cache_remblock = bnd cache_remblock_unlink block_free"

partial_function (option) cache_insert_loop ::
    "int \<Rightarrow> cstate \<Rightarrow> (error + unit \<times> cstate) option" where
  "cache_insert_loop tlen s =
     bnd load_cache (\<lambda>c.
       if size_c c + tlen > MAX_CACHE_SIZE
       then bnd cache_remblock (\<lambda>_. cache_insert_loop tlen)
       else ret ()) s"

definition cache_insert :: "string \<Rightarrow> string \<Rightarrow> int \<Rightarrow> unit prog" where
  "cache_insert u t tlen =
     bnd pthread_mutex_lock (\<lambda>_.
     bnd (cache_findblock u) (\<lambda>block.
     bnd (case block of
            None \<Rightarrow>
              bnd (cache_insert_loop tlen) (\<lambda>_.
              bnd (block_new u t tlen) (\<lambda>block.
              cache_addblock block))
          | Some _ \<Rightarrow> ret ()) (\<lambda>_.
     pthread_mutex_unlock)))"

text \<open>
  A descriptor written with \<^verbatim>\<open>rio_writen\<close>: the bytes accepted so far, and how many
  more writes succeed before the peer is gone (\<open>None\<close>: it never fails). The result is
  the byte count, or \<open>-1\<close>.
\<close>

record fd =
  written :: string
  credit :: "nat option"

definition rio_writen :: "fd \<Rightarrow> string \<Rightarrow> int \<times> fd" where
  "rio_writen f buf =
     (case credit f of
        None \<Rightarrow> (int (length buf), f\<lparr>written := written f @ buf\<rparr>)
      | Some 0 \<Rightarrow> (-1, f)
      | Some (Suc n) \<Rightarrow> (int (length buf), f\<lparr>written := written f @ buf, credit := Some n\<rparr>))"

text \<open>
  \<^verbatim>\<open>cache_gettext\<close> has two critical sections, with the write to the client between
  them and outside the lock. \<open>cache_gettext_pin\<close> is the first (find the block, move it
  to the front, count the reader), \<open>cache_gettext_unpin\<close> the second (\<^verbatim>\<open>ref_cont--\<close>).
\<close>

definition cache_gettext_pin :: "string \<Rightarrow> addr option prog" where
  "cache_gettext_pin u =
     bnd pthread_mutex_lock (\<lambda>_.
     bnd (cache_findblock u) (\<lambda>found.
     case found of
       None \<Rightarrow> bnd pthread_mutex_unlock (\<lambda>_. ret None)
     | Some block \<Rightarrow>
         bnd load_cache (\<lambda>c.
         bnd (if Some block = start c
              then store block (\<lambda>b. b\<lparr>ref_cont := ref_cont b + 1\<rparr>)
              else
                bnd (load block) (\<lambda>b.
                bnd (store (next_b b) (\<lambda>n. n\<lparr>prev_b := prev_b b\<rparr>)) (\<lambda>_.
                bnd (load block) (\<lambda>b.
                bnd (store (prev_b b) (\<lambda>p. p\<lparr>next_b := next_b b\<rparr>)) (\<lambda>_.
                bnd (cache_addblock block) (\<lambda>_.
                bnd (load block) (\<lambda>b.
                store_cache (\<lambda>c. c\<lparr>size_c := size_c c - text_len b\<rparr>)))))))) (\<lambda>_.
         bnd pthread_mutex_unlock (\<lambda>_.
         ret (Some block))))))"

definition cache_gettext_unpin :: "addr \<Rightarrow> unit prog" where
  "cache_gettext_unpin block =
     bnd pthread_mutex_lock (\<lambda>_.
     bnd (store block (\<lambda>b. b\<lparr>ref_cont := ref_cont b - 1\<rparr>)) (\<lambda>_.
     pthread_mutex_unlock))"

definition cache_gettext :: "string \<Rightarrow> fd \<Rightarrow> (bool \<times> fd) prog" where
  "cache_gettext u f =
     bnd (cache_gettext_pin u) (\<lambda>found.
     case found of
       None \<Rightarrow> ret (False, f)
     | Some block \<Rightarrow>
         bnd (load block) (\<lambda>b.
         case text_b b of
           None \<Rightarrow> abort Segfault
         | Some t \<Rightarrow>
             bnd (cache_gettext_unpin block) (\<lambda>_.
             ret (True, snd (rio_writen f (take (nat (text_len b)) t))))))"

partial_function (option) cache_free_loop ::
    "addr \<Rightarrow> cstate \<Rightarrow> (error + unit \<times> cstate) option" where
  "cache_free_loop cur s =
     bnd (load cur) (\<lambda>b.
     bnd (load (next_b b)) (\<lambda>nb.
     bnd (block_free (prev_b nb)) (\<lambda>_.
     bnd load_cache (\<lambda>c.
     if Some (next_b b) \<noteq> start c then cache_free_loop (next_b b) else ret ())))) s"

definition cache_free :: "unit prog" where
  "cache_free =
     bnd load_cache (\<lambda>c.
     bnd (case start c of None \<Rightarrow> ret () | Some cur \<Rightarrow> cache_free_loop cur) (\<lambda>_.
     (\<lambda>s. Some (Inr ((), s\<lparr>cache := None\<rparr>)))))"

text \<open>The loops above run as code.\<close>

declare block_free.simps [code] findblock_loop.simps [code] cache_insert_loop.simps [code]
  cache_free_loop.simps [code]

section \<open>tinyproxy.c\<close>

text \<open>
  \<^verbatim>\<open>request_info\<close> as \<^verbatim>\<open>parse_request\<close> fills it, and a header line as the parser hands it
  out. The parser library and the \<^verbatim>\<open>rio\<close> package are not part of the sources: what
  \<^verbatim>\<open>parser_lookup_header(parser, "Host")\<close> returns and the lines that
  \<^verbatim>\<open>parser_retrieve_next_header\<close> yields, in its order, are arguments of \<open>write_header\<close>.
\<close>

record request_info =
  r_host :: string
  r_port :: string
  r_path :: string
  r_method :: string
  r_uri :: string

record header =
  h_name :: string
  h_value :: string

definition CRLF :: string where
  "CRLF = [CHR 0x0D, CHR 0x0A]"

definition header_user_agent :: string where
  "header_user_agent = ''Mozilla/5.0 (X11; Linux x86_64; rv:3.10.0) Gecko/20230411 Firefox/63.0.1''"

text \<open>
  \<^verbatim>\<open>sprintf(buf, ...)\<close> on the array \<open>buf\<close>: the formatted text and its terminating
  \<^verbatim>\<open>NUL\<close> replace the front of the array, the rest keeps what it held, and the result is
  the length of the text. Text that does not fit is written past the array (\<open>None\<close>).
\<close>

definition sprintf :: "string \<Rightarrow> string \<Rightarrow> (int \<times> string) option" where
  "sprintf buf str =
     (if length str < length buf
      then Some (int (length str), str @ [CHR 0x00] @ drop (Suc (length str)) buf)
      else None)"

text \<open>The \<^verbatim>\<open>while\<close> loop of \<^verbatim>\<open>write_header\<close> over the remaining lines; \<open>buf_len\<close> is
  only assigned when a line is written.\<close>

fun write_lines :: "header list \<Rightarrow> fd \<Rightarrow> string \<Rightarrow> int \<Rightarrow> error + (int \<times> fd \<times> string \<times> int)" where
  "write_lines [] f buf buf_len = Inr (0, f, buf, buf_len)"
| "write_lines (line # rest) f buf buf_len =
     (if h_name line \<noteq> ''Host'' \<and> h_name line \<noteq> ''User-Agent''
         \<and> h_name line \<noteq> ''Connection'' \<and> h_name line \<noteq> ''Proxy-Connection''
      then (case sprintf buf (h_name line @ '': '' @ h_value line @ CRLF) of
              None \<Rightarrow> Inl Segfault
            | Some (n, buf') \<Rightarrow>
                (case rio_writen f (take (nat n) buf') of (r, f') \<Rightarrow>
                   if r < 0 then Inr (-1, f', buf', n) else write_lines rest f' buf' n))
      else write_lines rest f buf buf_len)"

text \<open>
  \<^verbatim>\<open>write_header\<close>. \<open>buf0\<close> is the array \<^verbatim>\<open>char buf[MAXLINE]\<close> as the stack holds it on
  entry. The last \<^verbatim>\<open>sprintf(buf, "\r\n")\<close> does not assign \<open>buf_len\<close>, and the write
  after it sends \<open>buf_len\<close> bytes of the array.
\<close>

definition write_header ::
    "fd \<Rightarrow> request_info \<Rightarrow> header option \<Rightarrow> header list \<Rightarrow> string \<Rightarrow> error + (int \<times> fd)" where
  "write_header fd_server request host_line headers buf0 =
     (case sprintf buf0 (r_method request @ '' '' @ r_path request @ '' HTTP/1.0'' @ CRLF) of
        None \<Rightarrow> Inl Segfault
      | Some (buf_len, buf) \<Rightarrow>
     (case rio_writen fd_server (take (nat buf_len) buf) of (r, f1) \<Rightarrow>
      if r < 0 then Inr (-1, f1) else
     (case sprintf buf
        (case host_line of
           None \<Rightarrow> ''Host: '' @ r_host request @ '':'' @ r_port request @ CRLF
                   @ ''User-Agent: '' @ header_user_agent @ CRLF
                   @ ''Connection: close'' @ CRLF @ ''Proxy-Connection: close'' @ CRLF
         | Some line \<Rightarrow> ''Host: '' @ h_value line @ CRLF
                   @ ''User-Agent: '' @ header_user_agent @ CRLF
                   @ ''Connection: close'' @ CRLF @ ''Proxy-Connection: close'' @ CRLF) of
        None \<Rightarrow> Inl Segfault
      | Some (buf_len, buf) \<Rightarrow>
     (case rio_writen f1 (take (nat buf_len) buf) of (r, f2) \<Rightarrow>
      if r < 0 then Inr (-1, f2) else
     (case write_lines headers f2 buf buf_len of
        Inl e \<Rightarrow> Inl e
      | Inr (r, f3, buf, buf_len) \<Rightarrow>
      if r < 0 then Inr (-1, f3) else
     (case sprintf buf CRLF of
        None \<Rightarrow> Inl Segfault
      | Some (_, buf) \<Rightarrow>
     (case rio_writen f3 (take (nat buf_len) buf) of (r, f4) \<Rightarrow>
      if r < 0 then Inr (-1, f4) else Inr (0, f4))))))))"

text \<open>\<^verbatim>\<open>%zu\<close>: a length in decimal.\<close>

function show_nat :: "nat \<Rightarrow> string" where
  "show_nat n = (if n < 10 then [char_of (48 + n)] else show_nat (n div 10) @ [char_of (48 + n mod 10)])"
  by pat_completeness auto
termination
  by (relation "measure id") auto

text \<open>\<^verbatim>\<open>clienterror\<close>; \<^verbatim>\<open>MAXLINE\<close> and \<^verbatim>\<open>MAXBUF\<close> come from \<^verbatim>\<open>csapp.h\<close>, which is not part
  of the sources, and are arguments.\<close>

definition clienterror :: "nat \<Rightarrow> nat \<Rightarrow> fd \<Rightarrow> string \<Rightarrow> string \<Rightarrow> string \<Rightarrow> fd" where
  "clienterror maxline maxbuf f errnum shortmsg longmsg =
     (let body = ''<!DOCTYPE html>'' @ CRLF @ ''<html>'' @ CRLF
               @ ''<head><title>Tiny Error</title></head>'' @ CRLF
               @ ''<body bgcolor='' @ [CHR 0x22] @ ''ffffff'' @ [CHR 0x22] @ ''>'' @ CRLF
               @ ''<h1>'' @ errnum @ '': '' @ shortmsg @ ''</h1>'' @ CRLF
               @ ''<p>'' @ longmsg @ ''</p>'' @ CRLF
               @ ''<hr /><em>The Tiny Web server</em>'' @ CRLF
               @ ''</body></html>'' @ CRLF
      in if maxbuf \<le> length body then f
      else let buf = ''HTTP/1.0 '' @ errnum @ '' '' @ shortmsg @ CRLF
                   @ ''Content-Type: text/html'' @ CRLF
                   @ ''Content-Length: '' @ show_nat (length body) @ CRLF @ CRLF
      in if maxline \<le> length buf then f
      else (case rio_writen f buf of (r, f1) \<Rightarrow>
              if r < 0 then f1 else snd (rio_writen f1 body)))"

text \<open>
  What one connection meets outside the program: how \<^verbatim>\<open>parse_request\<close> ends (a read error,
  a request line the parser rejects, or a parsed request with its headers), whether
  \<^verbatim>\<open>open_clientfd\<close> connects, the descriptor of the origin, the chunks that
  \<^verbatim>\<open>rio_readnb\<close> returns before it returns 0 or fails, and the stack array of
  \<^verbatim>\<open>write_header\<close>. The handler's use of the parser and of the origin connection is
  recorded as a list of events.
\<close>

datatype parse_outcome = Read_error | Malformed | Parsed request_info "header option" "header list"

datatype event = Parser_new | Parser_free | Open_clientfd | Close_server

record env =
  parse :: parse_outcome
  connects :: bool
  server :: fd
  response :: "string list"
  stack_buf :: string
  MAXLINE :: nat
  MAXBUF :: nat

text \<open>
  The relay loop of \<^verbatim>\<open>serve\<close>. \<open>input_len\<close> is a \<^verbatim>\<open>size_t\<close> (64 bits) and wraps;
  \<open>cache_input\<close> is the part of \<^verbatim>\<open>char cache_input[MAX_OBJECT_SIZE]\<close> below \<^verbatim>\<open>writep\<close>.
  The first component of the result tells whether the loop ran to its end (\<open>False\<close>:
  a write to the client failed).
\<close>

fun relay :: "string list \<Rightarrow> fd \<Rightarrow> 64 word \<Rightarrow> string \<Rightarrow> error + (bool \<times> fd \<times> 64 word \<times> string)" where
  "relay [] client input_len cache_input = Inr (True, client, input_len, cache_input)"
| "relay (buf # rest) client input_len cache_input =
     (if buf = [] then Inr (True, client, input_len, cache_input)
      else (case rio_writen client buf of (r, client') \<Rightarrow>
        if r < 0 then Inr (False, client', input_len, cache_input)
        else if input_len + of_nat (length buf) < word_of_int MAX_OBJECT_SIZE
        then (if nat MAX_OBJECT_SIZE < length cache_input + length buf then Inl Segfault
              else relay rest client' (input_len + of_nat (length buf)) (cache_input @ buf))
        else relay rest client' (input_len + of_nat (length buf)) cache_input))"

text \<open>
  \<^verbatim>\<open>serve\<close>, from \<^verbatim>\<open>parser_new\<close> on. The result is the list of events, the client's
  descriptor and the origin's descriptor if it was opened. After a failed
  \<^verbatim>\<open>open_clientfd\<close> the code calls \<^verbatim>\<open>close\<close> on the negative descriptor, which closes
  nothing and is not an event.
\<close>

definition serve :: "env \<Rightarrow> fd \<Rightarrow> (event list \<times> fd \<times> fd option) prog" where
  "serve env client =
     (case parse env of
        Read_error \<Rightarrow> ret ([Parser_new, Parser_free], client, None)
      | Malformed \<Rightarrow>
          ret ([Parser_new, Parser_free],
               clienterror (MAXLINE env) (MAXBUF env) client ''400'' ''Bad Request''
                 ''Tiny received a malformed request'', None)
      | Parsed request host_line headers \<Rightarrow>
          bnd (cache_gettext (r_uri request) client) (\<lambda>hit.
          if fst hit then ret ([Parser_new, Parser_free], snd hit, None)
          else if \<not> connects env then ret ([Parser_new, Parser_free], snd hit, None)
          else (case write_header (server env) request host_line headers (stack_buf env) of
                  Inl e \<Rightarrow> abort e
                | Inr w \<Rightarrow>
                    if fst w < 0
                    then ret ([Parser_new, Open_clientfd, Close_server, Parser_free], snd hit,
                              Some (snd w))
                    else (case relay (response env) (snd hit) 0 [] of
                            Inl e \<Rightarrow> abort e
                          | Inr (ok, client', input_len, cache_input) \<Rightarrow>
                              if \<not> ok
                              then ret ([Parser_new, Open_clientfd],
                                        clienterror (MAXLINE env) (MAXBUF env) client' ''400''
                                          ''Write error'' ''Error writing response to client'',
                                        Some (snd w))
                              else
                                bnd (if input_len < word_of_int MAX_OBJECT_SIZE
                                     then cache_insert (r_uri request) cache_input (sint input_len)
                                     else ret ()) (\<lambda>_.
                                ret ([Parser_new, Open_clientfd, Close_server, Parser_free],
                                     client', Some (snd w)))))))"


section \<open>Reading the heap\<close>

text \<open>
  The fields of the block at an address, as functions of the state. On a cell that is not
  allocated they have a fixed default; every statement below that uses them also says
  that the cell is \<open>live\<close>.
\<close>

definition live :: "cstate \<Rightarrow> addr \<Rightarrow> bool" where
  "live s = (\<lambda>a. heap s a \<noteq> None)"

definition NX :: "cstate \<Rightarrow> addr \<Rightarrow> addr" where
  "NX s = (\<lambda>a. case heap s a of None \<Rightarrow> a | Some b \<Rightarrow> next_b b)"

definition PV :: "cstate \<Rightarrow> addr \<Rightarrow> addr" where
  "PV s = (\<lambda>a. case heap s a of None \<Rightarrow> a | Some b \<Rightarrow> prev_b b)"

definition RC :: "cstate \<Rightarrow> addr \<Rightarrow> int" where
  "RC s = (\<lambda>a. case heap s a of None \<Rightarrow> 0 | Some b \<Rightarrow> ref_cont b)"

definition TL :: "cstate \<Rightarrow> addr \<Rightarrow> int" where
  "TL s = (\<lambda>a. case heap s a of None \<Rightarrow> 0 | Some b \<Rightarrow> text_len b)"

definition URI :: "cstate \<Rightarrow> addr \<Rightarrow> string option" where
  "URI s = (\<lambda>a. case heap s a of None \<Rightarrow> None | Some b \<Rightarrow> uri b)"

definition TXT :: "cstate \<Rightarrow> addr \<Rightarrow> string option" where
  "TXT s = (\<lambda>a. case heap s a of None \<Rightarrow> None | Some b \<Rightarrow> text_b b)"

definition payload :: "cstate \<Rightarrow> addr \<Rightarrow> string option \<times> string option \<times> int" where
  "payload s a = (URI s a, TXT s a, TL s a)"

definition total_len :: "cstate \<Rightarrow> addr list \<Rightarrow> int" where
  "total_len s xs = (\<Sum>a\<leftarrow>xs. TL s a)"

definition same_data :: "cstate \<Rightarrow> cstate \<Rightarrow> bool" where
  "same_data s s' = (TL s' = TL s \<and> URI s' = URI s \<and> TXT s' = TXT s \<and> brk s' = brk s
      \<and> mutex s' = mutex s \<and> live s' = live s)"

section \<open>The circular list\<close>

text \<open>
  \<open>cyc xs\<close> are the pairs of neighbours when \<open>xs\<close> is laid out on a ring, \<open>adj xs\<close>
  the pairs of neighbours in the list itself. \<open>linked s xs\<close>: the blocks \<open>xs\<close> are
  distinct, allocated, and each block's \<^verbatim>\<open>next\<close> is its successor on the ring and each
  block's \<^verbatim>\<open>prev\<close> its predecessor. \<open>cache_list s xs\<close>: \<open>xs\<close> is what a walk from
  \<^verbatim>\<open>cache->start\<close> along \<^verbatim>\<open>next\<close> visits before it is back at the start, most recently
  used block first.
\<close>

definition cyc :: "'a list \<Rightarrow> ('a \<times> 'a) set" where
  "cyc xs = set (zip xs (rotate1 xs))"

fun adj :: "'a list \<Rightarrow> ('a \<times> 'a) set" where
  "adj [] = {}"
| "adj [x] = {}"
| "adj (x # y # zs) = insert (x, y) (adj (y # zs))"

definition linked :: "cstate \<Rightarrow> addr list \<Rightarrow> bool" where
  "linked s xs = (distinct xs \<and> (\<forall>x\<in>set xs. live s x) \<and> (\<forall>(x, y)\<in>cyc xs. NX s x = y \<and> PV s y = x))"

definition cache_list :: "cstate \<Rightarrow> addr list \<Rightarrow> bool" where
  "cache_list s xs = (linked s xs \<and>
     map_option start (cache s) = Some (case xs of [] \<Rightarrow> None | x # _ \<Rightarrow> Some x))"

text \<open>The two assignments of \<^verbatim>\<open>cache_gettext\<close> that take a block out of the ring.\<close>

definition unlink :: "addr \<Rightarrow> unit prog" where
  "unlink block = bnd (load block) (\<lambda>b.
                bnd (store (next_b b) (\<lambda>n. n\<lparr>prev_b := prev_b b\<rparr>)) (\<lambda>_.
                bnd (load block) (\<lambda>b.
                store (prev_b b) (\<lambda>p. p\<lparr>next_b := next_b b\<rparr>))))"

section \<open>The invariant\<close>

text \<open>
  \<open>ps\<close> lists the blocks that readers hold between the two critical sections of
  \<^verbatim>\<open>cache_gettext\<close>, once per reader. \<open>cache_wf s ps xs\<close>: the list is \<open>xs\<close>,
  \<^verbatim>\<open>cache->size\<close> is the sum of its lengths and within the budget, every listed block was
  allocated by \<^verbatim>\<open>block_new\<close>, holds a key and \<^verbatim>\<open>text_len\<close> bytes, and counts the list
  and its readers; keys are pairwise different; every reader's block is listed.
\<close>

definition block_ok :: "cstate \<Rightarrow> addr list \<Rightarrow> addr \<Rightarrow> bool" where
  "block_ok s ps a = (a < brk s \<and> RC s a = 1 + int (count_list ps a) \<and> 0 \<le> TL s a
      \<and> (\<exists>u. URI s a = Some u) \<and> (\<exists>t. TXT s a = Some t \<and> int (length t) = TL s a))"

definition cache_wf :: "cstate \<Rightarrow> addr list \<Rightarrow> addr list \<Rightarrow> bool" where
  "cache_wf s ps xs = (linked s xs
      \<and> cache s = Some \<lparr>size_c = total_len s xs, start = (case xs of [] \<Rightarrow> None | x # _ \<Rightarrow> Some x)\<rparr>
      \<and> (\<forall>a\<in>set xs. block_ok s ps a)
      \<and> distinct (map (URI s) xs)
      \<and> set ps \<subseteq> set xs
      \<and> total_len s xs \<le> MAX_CACHE_SIZE)"

text \<open>\<open>evicted_to s xs n k\<close>: keeping the first \<open>k\<close> blocks of \<open>xs\<close> is the first point
  at which \<open>n\<close> more bytes fit, when blocks are dropped from the end one at a time.\<close>

definition evicted_to :: "cstate \<Rightarrow> addr list \<Rightarrow> int \<Rightarrow> nat \<Rightarrow> bool" where
  "evicted_to s xs n k = (k \<le> length xs \<and> total_len s (take k xs) + n \<le> MAX_CACHE_SIZE
      \<and> (\<forall>j. k < j \<and> j \<le> length xs \<longrightarrow> MAX_CACHE_SIZE < total_len s (take j xs) + n))"

section \<open>Sequences of cache operations\<close>

text \<open>
  The handler threads use the cache through \<^verbatim>\<open>cache_insert\<close> and \<^verbatim>\<open>cache_gettext\<close>.
  Under the mutex each critical section is one step; a reader is between its two
  sections from \<open>Pin\<close> to \<open>Unpin\<close> (the argument of \<open>Unpin\<close> picks the reader), and
  \<open>Gettext\<close> is a lookup that no other step interrupts. A step that never returns
  (\<open>None\<close>) holds the mutex for ever, so nothing runs after it.
\<close>

datatype op = Insert string string int | Gettext string | Pin string | Unpin nat

definition lift :: "(error + 'a \<times> cstate) option \<Rightarrow> ('a \<Rightarrow> addr list) \<Rightarrow> (error + cstate \<times> addr list) option" where
  "lift r f = (case r of None \<Rightarrow> None | Some (Inl e) \<Rightarrow> Some (Inl e)
                | Some (Inr p) \<Rightarrow> Some (Inr (snd p, f (fst p))))"

fun step :: "op \<Rightarrow> cstate \<times> addr list \<Rightarrow> (error + cstate \<times> addr list) option" where
  "step (Insert u t n) (s, ps) = lift (cache_insert u t n s) (\<lambda>_. ps)"
| "step (Gettext u) (s, ps) = lift (cache_gettext u \<lparr>written = [], credit = None\<rparr> s) (\<lambda>_. ps)"
| "step (Pin u) (s, ps) =
     lift (cache_gettext_pin u s) (\<lambda>r. case r of None \<Rightarrow> ps | Some block \<Rightarrow> block # ps)"
| "step (Unpin i) (s, ps) =
     (if i < length ps then lift (cache_gettext_unpin (ps ! i) s) (\<lambda>_. remove1 (ps ! i) ps)
      else Some (Inr (s, ps)))"

fun run :: "op list \<Rightarrow> cstate \<times> addr list \<Rightarrow> (error + cstate \<times> addr list) option" where
  "run [] st = Some (Inr st)"
| "run (x # ops) st =
     (case step x st of None \<Rightarrow> None | Some (Inl e) \<Rightarrow> Some (Inl e) | Some (Inr st') \<Rightarrow> run ops st')"

text \<open>What \<^verbatim>\<open>serve\<close> guarantees of an insertion: \<^verbatim>\<open>text_len\<close> bytes are there to copy,
  and they are at most \<^verbatim>\<open>MAX_OBJECT_SIZE\<close>.\<close>

fun op_ok :: "op \<Rightarrow> bool" where
  "op_ok (Insert u t n) = (0 \<le> n \<and> n \<le> int (length t) \<and> n \<le> MAX_OBJECT_SIZE)"
| "op_ok _ = True"

fun is_Pin :: "op \<Rightarrow> bool" where
  "is_Pin (Pin u) = True"
| "is_Pin _ = False"

definition sys_inv :: "cstate \<times> addr list \<Rightarrow> bool" where
  "sys_inv st = (\<exists>xs. cache_wf (fst st) (snd st) xs \<and> \<not> mutex (fst st))"

text \<open>The process before \<^verbatim>\<open>main\<close> calls \<^verbatim>\<open>cache_init\<close>: nothing allocated, \<^verbatim>\<open>cache\<close>
  still \<^verbatim>\<open>NULL\<close>.\<close>

definition boot :: cstate where
  "boot = \<lparr>heap = (\<lambda>_. None), brk = 0, cache = None, mutex = False\<rparr>"

text \<open>Small states used to run the code: the cache after \<^verbatim>\<open>cache_init\<close>, after the
  insertion of three bytes under \<^verbatim>\<open>/a\<close>, and while one reader streams that entry.\<close>

definition after_init :: cstate where
  "after_init = boot\<lparr>cache := Some \<lparr>size_c = 0, start = None\<rparr>, mutex := False\<rparr>"

definition block_a :: cblock where
  "block_a = \<lparr>text_len = 3, ref_cont = 1, next_b = 0, prev_b = 0,
              uri = Some ''/a'', text_b = Some ''xyz''\<rparr>"

definition one_entry :: cstate where
  "one_entry = \<lparr>heap = (\<lambda>_. None)(0 \<mapsto> block_a), brk = 1,
                 cache = Some \<lparr>size_c = 3, start = Some 0\<rparr>, mutex = False\<rparr>"

definition one_pinned :: cstate where
  "one_pinned = one_entry\<lparr>heap := (\<lambda>_. None)(0 \<mapsto> block_a\<lparr>ref_cont := 2\<rparr>)\<rparr>"

text \<open>A slow client: a response of 100000 bytes is cached under \<^verbatim>\<open>/0\<close>, a reader finds it
  and starts writing it out (it is between the two critical sections of
  \<^verbatim>\<open>cache_gettext\<close>), and nine more responses of the same length are cached meanwhile.\<close>

definition body :: string where
  "body = replicate 100000 (CHR ''x'')"

definition slow_reader :: "op list" where
  "slow_reader = Insert ''/0'' body 100000 # Pin ''/0'' #
     map (\<lambda>u. Insert u body 100000) [''/1'', ''/2'', ''/3'', ''/4'', ''/5'', ''/6'', ''/7'', ''/8'', ''/9'']"

text \<open>What \<^verbatim>\<open>serve\<close> returns when the relay ran to its end.\<close>

definition served :: "fd \<Rightarrow> string list \<Rightarrow> fd \<Rightarrow> event list \<times> fd \<times> fd option" where
  "served client chunks fd_server =
     ([Parser_new, Open_clientfd, Close_server, Parser_free],
      client\<lparr>written := written client @ concat chunks\<rparr>, Some fd_server)"

text \<open>
  A request \<^verbatim>\<open>GET http://h:80/\<close> without header lines, a client and an origin that accept
  every write, and two responses: three bytes, and exactly \<^verbatim>\<open>MAX_OBJECT_SIZE\<close> bytes in
  chunks of 8192. \<open>ex_wire\<close> is the request the origin should receive, \<open>ex_server\<close>
  what it does receive.
\<close>

definition ex_request :: request_info where
  "ex_request = \<lparr>r_host = ''h'', r_port = ''80'', r_path = ''/'', r_method = ''GET'',
                  r_uri = ''http://h:80/''\<rparr>"

definition ex_fd :: fd where
  "ex_fd = \<lparr>written = [], credit = None\<rparr>"

definition ex_env :: env where
  "ex_env = \<lparr>parse = Parsed ex_request None [], connects = True, server = ex_fd,
              response = [''abc''], stack_buf = replicate 8192 CHR ''?'', MAXLINE = 8192, MAXBUF = 8192\<rparr>"

definition ex_block :: string where
  "ex_block = ''Host: h:80'' @ CRLF @ ''User-Agent: '' @ header_user_agent @ CRLF
            @ ''Connection: close'' @ CRLF @ ''Proxy-Connection: close'' @ CRLF"

definition ex_wire :: string where
  "ex_wire = ''GET / HTTP/1.0'' @ CRLF @ ex_block @ CRLF"

definition ex_server :: fd where
  "ex_server = \<lparr>written = ex_wire @ [CHR 0x00] @ drop 3 ex_block, credit = None\<rparr>"

definition big_env :: env where
  "big_env = ex_env\<lparr>response := replicate 12 (replicate 8192 CHR ''x'') @ [replicate 4096 CHR ''x'']\<rparr>"


section \<open>Lemmas\<close>

lemma adj_Cons: "adj (x # xs) = (if xs = [] then {} else insert (x, hd xs) (adj xs))"
  by (cases xs) simp_all

lemma adj_append:
  "adj (xs @ ys) = adj xs \<union> adj ys \<union> (if xs = [] \<or> ys = [] then {} else {(last xs, hd ys)})"
proof (induction xs)
  case Nil then show ?case by simp
next
  case (Cons x xs)
  then show ?case by (cases xs; cases ys) (auto simp: adj_Cons)
qed

lemma adj_fst: "(x, y) \<in> adj xs \<Longrightarrow> x \<in> set (butlast xs)"
  by (induction xs rule: adj.induct) auto

lemma adj_snd: "(x, y) \<in> adj xs \<Longrightarrow> y \<in> set (tl xs)"
  by (induction xs rule: adj.induct) auto

lemma adj_distinct:
  assumes "distinct xs" "(x, y) \<in> adj xs"
  shows "x \<noteq> last xs \<and> y \<noteq> hd xs \<and> x \<in> set xs \<and> y \<in> set xs"
proof -
  from assms(2) have ne: "xs \<noteq> []" by auto
  have x: "x \<in> set (butlast xs)" and y: "y \<in> set (tl xs)"
    using assms(2) by (auto dest: adj_fst adj_snd)
  have "distinct (butlast xs @ [last xs])" using ne assms(1) by simp
  then have "last xs \<notin> set (butlast xs)" by simp
  moreover have "distinct (hd xs # tl xs)" using ne assms(1) by simp
  then have "hd xs \<notin> set (tl xs)" by simp
  moreover have "y \<in> set xs" using y ne by (auto dest: list.set_sel(2))
  ultimately show ?thesis using x y by (auto dest: in_set_butlastD)
qed

lemma cyc_Nil [simp]: "cyc [] = {}"
  by (simp add: cyc_def)

lemma zip_snoc_adj: "set (zip (x # xs) (xs @ [z])) = insert (last (x # xs), z) (adj (x # xs))"
  by (induction xs arbitrary: x) auto

lemma cyc_adj: "xs \<noteq> [] \<Longrightarrow> cyc xs = insert (last xs, hd xs) (adj xs)"
  by (cases xs) (simp_all add: cyc_def zip_snoc_adj del: last.simps)

lemma cyc_Cons: "cyc (a # xs) = (if xs = [] then {(a, a)} else {(a, hd xs), (last xs, a)} \<union> adj xs)"
  by (auto simp: cyc_adj adj_Cons)

lemma cyc_append: "us \<noteq> [] \<Longrightarrow> vs \<noteq> [] \<Longrightarrow> cyc (us @ vs) = adj us \<union> adj vs \<union> {(last us, hd vs), (last vs, hd us)}"
  by (auto simp: cyc_adj adj_append)

lemma cyc_rotate: "cyc (us @ vs) = cyc (vs @ us)"
  by (cases "us = []"; cases "vs = []") (auto simp: cyc_append)

lemmas proj_defs = live_def NX_def PV_def RC_def TL_def URI_def TXT_def

lemma cache_addblock_empty:
  assumes "cache s = Some c" "start c = None" "live s a"
  shows "\<exists>s'. cache_addblock a s = Some (Inr ((), s')) \<and> same_data s s'
     \<and> NX s' = NX s \<and> PV s' = PV s \<and> RC s' = (RC s)(a := RC s a + 1)
     \<and> cache s' = Some \<lparr>size_c = size_c c + TL s a, start = Some a\<rparr>"
  using assms
  by (auto simp: cache_addblock_def bnd_def load_cache_def store_cache_def store_def load_def
       same_data_def proj_defs fun_eq_iff)

lemma cache_addblock_nonempty:
  assumes "cache s = Some c" "start c = Some st" "live s a" "live s st" "live s (PV s st)"
    "a \<noteq> st" "a \<noteq> PV s st"
  shows "\<exists>s'. cache_addblock a s = Some (Inr ((), s')) \<and> same_data s s'
     \<and> NX s' = (NX s)(a := st, PV s st := a) \<and> PV s' = (PV s)(a := PV s st, st := a)
     \<and> RC s' = (RC s)(a := RC s a + 1)
     \<and> cache s' = Some \<lparr>size_c = size_c c + TL s a, start = Some a\<rparr>"
  using assms
  by (auto simp: cache_addblock_def bnd_def load_cache_def store_cache_def store_def load_def
       same_data_def proj_defs fun_eq_iff)

lemma linked_ends:
  assumes "linked s xs" "xs \<noteq> []"
  shows "PV s (hd xs) = last xs" "NX s (last xs) = hd xs"
  using assms by (auto simp: linked_def cyc_adj)

lemma linked_single:
  assumes "live s a" "NX s a = a" "PV s a = a"
  shows "linked s [a]"
  using assms by (simp add: linked_def cyc_Cons)

lemma linked_push:
  assumes "linked s xs" "xs \<noteq> []" "a \<notin> set xs" "live s' a" "\<forall>x\<in>set xs. live s' x"
    "NX s' = (NX s)(a := hd xs, last xs := a)" "PV s' = (PV s)(a := last xs, hd xs := a)"
  shows "linked s' (a # xs)"
proof -
  have d: "distinct xs" using assms(1) by (simp add: linked_def)
  have l: "last xs \<in> set xs" "hd xs \<in> set xs" using assms(2) by simp_all
  have old: "NX s x = y \<and> PV s y = x" if "(x, y) \<in> adj xs" for x y
    using that assms(1,2) by (auto simp: linked_def cyc_adj)
  have "NX s' x = y \<and> PV s' y = x" if "(x, y) \<in> adj xs" for x y
    using adj_distinct [OF d that] old [OF that] assms(3) by (auto simp: assms(6,7))
  moreover have "NX s' a = hd xs" "PV s' (hd xs) = a" "NX s' (last xs) = a" "PV s' a = last xs"
    using assms(3) l by (auto simp: assms(6,7))
  ultimately show ?thesis
    using assms(2-5) d by (auto simp: linked_def cyc_Cons)
qed

lemma linked_rotate: "linked s (us @ vs) = linked s (vs @ us)"
  by (auto simp: linked_def cyc_rotate [of us vs])

lemma linked_pop:
  assumes "linked s (b # ws)" "ws \<noteq> []" "\<forall>x\<in>set ws. live s' x"
    "NX s' = (NX s)(last ws := hd ws)" "PV s' = (PV s)(hd ws := last ws)"
  shows "linked s' ws"
proof -
  have d: "distinct ws" using assms(1) by (simp add: linked_def)
  have old: "NX s x = y \<and> PV s y = x" if "(x, y) \<in> adj ws" for x y
    using that assms(1,2) by (auto simp: linked_def cyc_Cons)
  have "NX s' x = y \<and> PV s' y = x" if "(x, y) \<in> adj ws" for x y
    using adj_distinct [OF d that] old [OF that] by (auto simp: assms(4,5))
  moreover have "NX s' (last ws) = hd ws" "PV s' (hd ws) = last ws"
    by (auto simp: assms(4,5))
  ultimately show ?thesis
    using assms(2,3) d by (auto simp: linked_def cyc_adj)
qed

lemma linked_hd:
  assumes "linked s (b # ws)" "ws \<noteq> []"
  shows "NX s b = hd ws" "PV s b = last ws"
  using assms by (auto simp: linked_def cyc_Cons)

lemma linked_frame:
  assumes "linked s xs" "\<forall>x\<in>set xs. live s' x \<and> NX s' x = NX s x \<and> PV s' x = PV s x"
  shows "linked s' xs"
proof -
  have "x \<in> set xs \<and> y \<in> set xs" if "(x, y) \<in> cyc xs" for x y
    using that by (auto simp: cyc_def dest: set_zip_leftD set_zip_rightD)
  then show ?thesis using assms by (fastforce simp: linked_def)
qed

lemmas run_defs = bnd_def ret_def abort_def load_def store_def load_cache_def store_cache_def

lemma block_free_ok:
  assumes "live s a" "RC s a = 0"
  shows "block_free a s = Some (Inr ((), s\<lparr>heap := (heap s)(a := None)\<rparr>))"
  using assms by (subst block_free.simps) (auto simp: proj_defs)

lemma block_free_Some:
  assumes "block_free a s = Some y"
  shows "RC s a = 0"
  by (rule block_free.raw_induct [where P = "\<lambda>a s y. RC s a = 0", OF _ assms])
     (fastforce simp: proj_defs split: option.splits if_splits)

lemma block_free_spin:
  assumes "RC s a \<noteq> 0"
  shows "block_free a s = None"
  using assms block_free_Some by (cases "block_free a s") auto

lemma cache_remblock_unlink_run:
  assumes "cache s = Some c" "start c = Some st" "live s st" "live s (PV s st)"
    "live s (PV s (PV s st))"
  shows "\<exists>s'. cache_remblock_unlink s = Some (Inr (PV s st, s')) \<and> same_data s s'
     \<and> NX s' = (NX s)(PV s (PV s st) := st) \<and> PV s' = (PV s)(st := PV s (PV s st))
     \<and> RC s' = (RC s)(PV s st := RC s (PV s st) - 1)
     \<and> cache s' = Some \<lparr>size_c = size_c c - TL s (PV s st),
                          start = (if PV s st = st then None else Some st)\<rparr>"
  using assms
  by (auto simp: cache_remblock_unlink_def run_defs Let_def
       same_data_def proj_defs fun_eq_iff)

lemma block_new_run:
  assumes "0 \<le> n" "n \<le> int (length t)"
  shows "block_new u t n s = Some (Inr (brk s,
     s\<lparr>heap := (heap s)(brk s \<mapsto> \<lparr>text_len = n, ref_cont = 0, next_b = brk s, prev_b = brk s,
            uri = Some u, text_b = Some (take (nat n) t)\<rparr>), brk := Suc (brk s)\<rparr>))"
  using assms by (auto simp: block_new_def block_empty_def run_defs Let_def)

lemma unlink_run:
  assumes "live s b" "live s (NX s b)" "live s (PV s b)" "NX s b \<noteq> b" "PV s b \<noteq> b"
  shows "\<exists>s'. unlink b s = Some (Inr ((), s')) \<and> same_data s s' \<and> cache s' = cache s
     \<and> NX s' = (NX s)(PV s b := NX s b) \<and> PV s' = (PV s)(NX s b := PV s b) \<and> RC s' = RC s"
  using assms
  by (auto simp: unlink_def run_defs Let_def same_data_def proj_defs fun_eq_iff)

lemma payload_eq: "payload s' a = payload s a \<longleftrightarrow> URI s' a = URI s a \<and> TXT s' a = TXT s a \<and> TL s' a = TL s a"
  by (auto simp: payload_def)

lemma total_len_cong: "\<forall>a\<in>set xs. payload s' a = payload s a \<Longrightarrow> total_len s' xs = total_len s xs"
  unfolding total_len_def by (induction xs) (auto simp: payload_eq)

lemma map_URI_cong: "\<forall>a\<in>set xs. payload s' a = payload s a \<Longrightarrow> map (URI s') xs = map (URI s) xs"
  by (induction xs) (auto simp: payload_eq)

lemma block_ok_cong:
  assumes "block_ok s ps a" "payload s' a = payload s a" "RC s' a = RC s a" "brk s \<le> brk s'"
  shows "block_ok s' ps a"
  using assms by (auto simp: block_ok_def payload_eq)

lemma linked_next:
  assumes "linked s (us @ a # b # vs)"
  shows "NX s a = b" "PV s b = a"
proof -
  have "(a, b) \<in> adj (us @ a # b # vs)" by (simp add: adj_append)
  then have "(a, b) \<in> cyc (us @ a # b # vs)" by (simp add: cyc_adj)
  then show "NX s a = b" "PV s b = a" using assms by (auto simp: linked_def)
qed

lemma findblock_loop_ok:
  assumes "linked s xs" "cache s = Some c" "start c = Some (hd xs)"
    "\<forall>a\<in>set xs. \<exists>v. URI s a = Some v"
    "xs = us @ a # vs" "\<forall>x\<in>set us. URI s x \<noteq> Some u"
  shows "findblock_loop u a s = Some (Inr (find (\<lambda>x. URI s x = Some u) (a # vs), s))"
  using assms(5,6)
proof (induction vs arbitrary: us a)
  case Nil
  have la: "live s a" using assms(1) Nil by (auto simp: linked_def)
  obtain v where v: "URI s a = Some v" using assms(4) Nil by auto
  have "NX s a = hd xs" using linked_ends(2) [OF assms(1)] Nil by simp
  then show ?case using la v assms(2,3)
    by (subst findblock_loop.simps) (auto simp: run_defs proj_defs)
next
  case (Cons b vs)
  have la: "live s a" using assms(1) Cons.prems by (auto simp: linked_def)
  obtain v where v: "URI s a = Some v" using assms(4) Cons.prems by auto
  have nx: "NX s a = b" using linked_next(1) assms(1) Cons.prems by blast
  have "distinct xs" using assms(1) by (simp add: linked_def)
  then have ne: "b \<noteq> hd xs" using Cons.prems(1) by (cases us) auto
  have ih: "findblock_loop u b s = Some (Inr (find (\<lambda>x. URI s x = Some u) (b # vs), s))"
    if "u \<noteq> v"
    using Cons.IH [of "us @ [a]" b] Cons.prems v that by auto
  show ?case using la v nx ne assms(2,3) ih
    by (subst findblock_loop.simps) (auto simp: run_defs proj_defs)
qed

lemma cache_findblock_ok:
  assumes "cache_wf s ps xs"
  shows "cache_findblock u s = Some (Inr (find (\<lambda>x. URI s x = Some u) xs, s))"
proof (cases xs)
  case Nil
  then show ?thesis using assms by (auto simp: cache_wf_def cache_findblock_def run_defs)
next
  case (Cons a vs)
  have "findblock_loop u a s = Some (Inr (find (\<lambda>x. URI s x = Some u) (a # vs), s))"
    using assms Cons
    by (intro findblock_loop_ok [where xs = xs and us = "[]"])
       (auto simp: cache_wf_def block_ok_def)
  then show ?thesis using assms Cons by (auto simp: cache_wf_def cache_findblock_def run_defs)
qed

lemma bnd_ok: "m s = Some (Inr (x, s')) \<Longrightarrow> bnd m k s = k x s'"
  by (simp add: bnd_def)

lemma bnd_None: "m s = None \<Longrightarrow> bnd m k s = None"
  by (simp add: bnd_def)

lemma free_proj:
  assumes "a \<noteq> r"
  shows "NX (s\<lparr>heap := (heap s)(r := None)\<rparr>) a = NX s a"
    "PV (s\<lparr>heap := (heap s)(r := None)\<rparr>) a = PV s a"
    "RC (s\<lparr>heap := (heap s)(r := None)\<rparr>) a = RC s a"
    "payload (s\<lparr>heap := (heap s)(r := None)\<rparr>) a = payload s a"
    "live (s\<lparr>heap := (heap s)(r := None)\<rparr>) a = live s a"
  using assms by (auto simp: proj_defs payload_def)

lemma same_data_payload: "same_data s s' \<Longrightarrow> payload s' a = payload s a"
  by (simp add: same_data_def payload_def)

lemma cache_wf_last:
  assumes "cache_wf s ps (ys @ [r])"
  shows "PV s (hd (ys @ [r])) = r" "PV s r = (if ys = [] then r else last ys)"
    "live s r" "live s (hd (ys @ [r]))" "ys \<noteq> [] \<Longrightarrow> live s (last ys)"
    "r \<notin> set ys" "r = hd (ys @ [r]) \<longleftrightarrow> ys = []"
proof -
  have l: "linked s (ys @ [r])" using assms by (simp add: cache_wf_def)
  show "PV s (hd (ys @ [r])) = r" using linked_ends(1) [OF l] by simp
  show "PV s r = (if ys = [] then r else last ys)"
  proof (cases ys rule: rev_cases)
    case Nil
    then show ?thesis using linked_ends(1) [OF l] by simp
  next
    case (snoc zs z)
    then show ?thesis using linked_next(2) [of s zs z r "[]"] l by simp
  qed
  show "live s r" "live s (hd (ys @ [r]))" "ys \<noteq> [] \<Longrightarrow> live s (last ys)"
    "r \<notin> set ys" "r = hd (ys @ [r]) \<longleftrightarrow> ys = []"
    using l by (auto simp: linked_def hd_append)
qed

lemma cache_remblock_unlink_ok:
  assumes wf: "cache_wf s ps (ys @ [r])"
  shows "\<exists>s'. cache_remblock_unlink s = Some (Inr (r, s')) \<and> same_data s s'
     \<and> linked s' ys \<and> (\<forall>a\<in>set ys. RC s' a = RC s a) \<and> RC s' r = RC s r - 1 \<and> live s' r
     \<and> cache s' = Some \<lparr>size_c = total_len s ys,
                          start = (case ys of [] \<Rightarrow> None | x # _ \<Rightarrow> Some x)\<rparr>"
proof -
  let ?st = "hd (ys @ [r])"
  note f = cache_wf_last [OF wf]
  have l: "linked s (ys @ [r])" using wf by (simp add: cache_wf_def)
  have c: "cache s = Some \<lparr>size_c = total_len s (ys @ [r]), start = Some ?st\<rparr>"
    using wf by (cases ys) (auto simp: cache_wf_def)
  have lv: "live s ?st" "live s (PV s ?st)" "live s (PV s (PV s ?st))"
    using f by auto
  from cache_remblock_unlink_run [OF c _ lv]
  obtain s' where s': "cache_remblock_unlink s = Some (Inr (PV s ?st, s'))" "same_data s s'"
      "NX s' = (NX s)(PV s (PV s ?st) := ?st)" "PV s' = (PV s)(?st := PV s (PV s ?st))"
      "RC s' = (RC s)(PV s ?st := RC s (PV s ?st) - 1)"
      "cache s' = Some \<lparr>size_c = total_len s (ys @ [r]) - TL s (PV s ?st),
                          start = (if PV s ?st = ?st then None else Some ?st)\<rparr>"
    by auto
  have lk: "linked s' ys"
  proof (cases "ys = []")
    case True
    then show ?thesis by (simp add: linked_def)
  next
    case False
    have "linked s (r # ys)" using linked_rotate [of s ys "[r]"] l by simp
    moreover have "\<forall>x\<in>set ys. live s' x"
      using l s'(2) by (auto simp: linked_def same_data_def)
    ultimately show ?thesis
      using False f s'(3,4) by (intro linked_pop [of s r ys s']) (auto simp: hd_append)
  qed
  have "cache s' = Some \<lparr>size_c = total_len s ys,
                          start = (case ys of [] \<Rightarrow> None | x # _ \<Rightarrow> Some x)\<rparr>"
    using s'(6) f by (cases ys) (auto simp: total_len_def)
  moreover have "live s' r" using f s'(2) by (simp add: same_data_def)
  ultimately show ?thesis using s' lk f by (auto simp: fun_upd_def)
qed

lemma cache_remblock_ok:
  assumes wf: "cache_wf s ps (ys @ [r])" and np: "r \<notin> set ps"
  shows "\<exists>s'. cache_remblock s = Some (Inr ((), s')) \<and> cache_wf s' ps ys
     \<and> (\<forall>a\<in>set ys. payload s' a = payload s a) \<and> brk s' = brk s \<and> mutex s' = mutex s"
proof -
  from cache_remblock_unlink_ok [OF wf]
  obtain s1 where s1: "cache_remblock_unlink s = Some (Inr (r, s1))" "same_data s s1"
     "linked s1 ys" "\<forall>a\<in>set ys. RC s1 a = RC s a" "RC s1 r = RC s r - 1" "live s1 r"
     "cache s1 = Some \<lparr>size_c = total_len s ys,
                          start = (case ys of [] \<Rightarrow> None | x # _ \<Rightarrow> Some x)\<rparr>"
    by auto
  let ?s' = "s1\<lparr>heap := (heap s1)(r := None)\<rparr>"
  note f = cache_wf_last [OF wf]
  have "block_ok s ps r" using wf by (simp add: cache_wf_def)
  then have rc: "RC s1 r = 0" using np s1(5) by (simp add: block_ok_def)
  have run: "cache_remblock s = Some (Inr ((), ?s'))"
    unfolding cache_remblock_def using s1(1) block_free_ok [OF s1(6) rc] by (simp add: bnd_ok)
  have ne: "a \<noteq> r" if "a \<in> set ys" for a using that f(6) by auto
  have pl: "\<forall>a\<in>set ys. payload ?s' a = payload s a"
  proof
    fix a assume "a \<in> set ys"
    from free_proj(4) [OF ne [OF this]] show "payload ?s' a = payload s a"
      using s1(2) by (simp add: same_data_payload)
  qed
  have lk: "linked ?s' ys"
  proof (rule linked_frame [OF s1(3)], rule ballI)
    fix x assume "x \<in> set ys"
    from free_proj [OF ne [OF this]] \<open>x \<in> set ys\<close> s1(3)
    show "live ?s' x \<and> NX ?s' x = NX s1 x \<and> PV ?s' x = PV s1 x"
      by (simp add: linked_def)
  qed
  have tl: "total_len ?s' ys = total_len s ys" using pl by (rule total_len_cong)
  have "0 \<le> TL s r" using \<open>block_ok s ps r\<close> by (simp add: block_ok_def)
  then have le: "total_len s ys \<le> MAX_CACHE_SIZE"
    using wf by (simp add: cache_wf_def total_len_def)
  have ok: "\<forall>a\<in>set ys. block_ok ?s' ps a"
  proof
    fix a assume a: "a \<in> set ys"
    show "block_ok ?s' ps a"
    proof (rule block_ok_cong)
      show "block_ok s ps a" using wf a by (simp add: cache_wf_def)
      show "payload ?s' a = payload s a" using pl a by simp
      show "RC ?s' a = RC s a" using free_proj(3) [OF ne [OF a], of s1] s1(4) a by simp
      show "brk s \<le> brk ?s'" using s1(2) by (simp add: same_data_def)
    qed
  qed
  have "distinct (map (URI s) (ys @ [r]))" using wf by (simp add: cache_wf_def)
  then have d: "distinct (map (URI ?s') ys)" unfolding map_URI_cong [OF pl] by simp
  have "set ps \<subseteq> set ys" using wf np by (auto simp: cache_wf_def)
  then have "cache_wf ?s' ps ys"
    using lk s1(7) tl le ok d by (simp add: cache_wf_def)
  moreover have "brk ?s' = brk s" "mutex ?s' = mutex s" using s1(2) by (simp_all add: same_data_def)
  ultimately show ?thesis using run pl by (intro exI [of _ ?s']) simp
qed

lemma cache_remblock_spin:
  assumes wf: "cache_wf s ps (ys @ [r])" and np: "r \<in> set ps"
  shows "cache_remblock s = None"
proof -
  from cache_remblock_unlink_ok [OF wf]
  obtain s1 where s1: "cache_remblock_unlink s = Some (Inr (r, s1))" "RC s1 r = RC s r - 1"
    by auto
  have "block_ok s ps r" using wf by (simp add: cache_wf_def)
  moreover have "count_list ps r \<noteq> 0" using np by (simp add: count_list_0_iff)
  ultimately have "RC s1 r \<noteq> 0" using s1(2) by (simp add: block_ok_def)
  then show ?thesis
    unfolding cache_remblock_def using s1(1) by (simp add: bnd_ok block_free_spin)
qed

lemma cache_insert_loop_ok:
  assumes "cache_wf s ps xs" "n \<le> MAX_CACHE_SIZE"
  shows "case cache_insert_loop n s of
      None \<Rightarrow> \<exists>k<length xs. xs ! k \<in> set ps \<and> MAX_CACHE_SIZE < total_len s (take (Suc k) xs) + n
    | Some (Inl e) \<Rightarrow> False
    | Some (Inr (u, s')) \<Rightarrow> \<exists>k. evicted_to s xs n k \<and> cache_wf s' ps (take k xs)
         \<and> (\<forall>a\<in>set (take k xs). payload s' a = payload s a)
         \<and> brk s' = brk s \<and> mutex s' = mutex s"
  using assms(1)
proof (induction xs arbitrary: s rule: rev_induct)
  case Nil
  then have c: "cache s = Some \<lparr>size_c = 0, start = None\<rparr>"
    by (simp add: cache_wf_def total_len_def)
  have "cache_insert_loop n s = Some (Inr ((), s))"
    using c assms(2) by (subst cache_insert_loop.simps) (simp add: run_defs)
  then show ?case using Nil by (simp add: evicted_to_def total_len_def assms(2))
next
  case (snoc r ys)
  have c: "cache s = Some \<lparr>size_c = total_len s (ys @ [r]), start = Some (hd (ys @ [r]))\<rparr>"
    using snoc.prems by (cases ys) (auto simp: cache_wf_def)
  show ?case
  proof (cases "MAX_CACHE_SIZE < total_len s (ys @ [r]) + n")
    case False
    have "cache_insert_loop n s = Some (Inr ((), s))"
      using c False by (subst cache_insert_loop.simps) (simp add: run_defs)
    moreover have "evicted_to s (ys @ [r]) n (length (ys @ [r]))"
      using False by (simp add: evicted_to_def)
    ultimately show ?thesis using snoc.prems
      by (auto intro!: exI [of _ "length (ys @ [r])"])
  next
    case True
    have step: "cache_insert_loop n s = bnd cache_remblock (\<lambda>_. cache_insert_loop n) s"
      using c True by (subst cache_insert_loop.simps) (simp add: run_defs)
    show ?thesis
    proof (cases "r \<in> set ps")
      case True
      have "cache_insert_loop n s = None"
        using step cache_remblock_spin [OF snoc.prems True] by (simp add: bnd_None)
      moreover have "(ys @ [r]) ! length ys \<in> set ps" using True by simp
      ultimately show ?thesis using \<open>MAX_CACHE_SIZE < total_len s (ys @ [r]) + n\<close>
        by (auto intro!: exI [of _ "length ys"])
    next
      case False
      from cache_remblock_ok [OF snoc.prems False]
      obtain s1 where s1: "cache_remblock s = Some (Inr ((), s1))" "cache_wf s1 ps ys"
        "\<forall>a\<in>set ys. payload s1 a = payload s a" "brk s1 = brk s" "mutex s1 = mutex s"
        by auto
      have eq: "cache_insert_loop n s = cache_insert_loop n s1"
        using step s1(1) by (simp add: bnd_ok)
      have tl: "total_len s1 (take j ys) = total_len s (take j ys)" for j
        using s1(3) by (intro total_len_cong) (auto dest: in_set_takeD)
      note ih = snoc.IH [OF s1(2)]
      show ?thesis
      proof (cases "cache_insert_loop n s1")
        case None
        then obtain k where k: "k < length ys" "ys ! k \<in> set ps"
          "MAX_CACHE_SIZE < total_len s1 (take (Suc k) ys) + n"
          using ih by auto
        then have "k < length (ys @ [r])" "(ys @ [r]) ! k \<in> set ps"
          "MAX_CACHE_SIZE < total_len s (take (Suc k) (ys @ [r])) + n"
          using tl [of "Suc k"] by (simp_all add: nth_append)
        then show ?thesis using None eq by auto
      next
        case (Some res)
        then obtain s' k where res: "res = Inr ((), s')" and k: "evicted_to s1 ys n k"
          "cache_wf s' ps (take k ys)" "\<forall>a\<in>set (take k ys). payload s' a = payload s1 a"
          "brk s' = brk s1" "mutex s' = mutex s1"
          using ih by (cases res) auto
        have kl: "k \<le> length ys" using k(1) by (simp add: evicted_to_def)
        have "evicted_to s (ys @ [r]) n k"
          unfolding evicted_to_def
        proof (intro conjI allI impI)
          show "k \<le> length (ys @ [r])" using kl by simp
          show "total_len s (take k (ys @ [r])) + n \<le> MAX_CACHE_SIZE"
            using k(1) kl tl [of k] by (simp add: evicted_to_def)
          fix j assume j: "k < j \<and> j \<le> length (ys @ [r])"
          show "MAX_CACHE_SIZE < total_len s (take j (ys @ [r])) + n"
          proof (cases "j \<le> length ys")
            case True
            then have "MAX_CACHE_SIZE < total_len s1 (take j ys) + n"
              using k(1) j unfolding evicted_to_def by blast
            then show ?thesis using True tl [of j] by simp
          next
            case False
            then have "take j (ys @ [r]) = ys @ [r]" using j by simp
            then show ?thesis using \<open>MAX_CACHE_SIZE < total_len s (ys @ [r]) + n\<close> by simp
          qed
        qed
        moreover have "\<forall>a\<in>set (take k (ys @ [r])). payload s' a = payload s a"
          using k(3) s1(3) kl by (auto dest: in_set_takeD)
        ultimately show ?thesis using Some res eq k(2,4,5) s1(4,5) kl
          by (auto intro!: exI [of _ k])
      qed
    qed
  qed
qed

lemma cache_wf_mutex [simp]: "cache_wf (s\<lparr>mutex := b\<rparr>) ps xs = cache_wf s ps xs"
  by (simp add: cache_wf_def linked_def block_ok_def total_len_def proj_defs)

lemma payload_mutex [simp]: "payload (s\<lparr>mutex := b\<rparr>) a = payload s a"
  by (simp add: payload_def proj_defs)

lemma total_len_mutex [simp]: "total_len (s\<lparr>mutex := b\<rparr>) xs = total_len s xs"
  by (simp add: total_len_def proj_defs)

lemma URI_mutex [simp]: "URI (s\<lparr>mutex := b\<rparr>) a = URI s a"
  by (simp add: proj_defs)

lemma alloc_proj:
  fixes s a blk
  defines "s' \<equiv> s\<lparr>heap := (heap s)(a \<mapsto> blk), brk := Suc a\<rparr>"
  shows "x \<noteq> a \<Longrightarrow> NX s' x = NX s x \<and> PV s' x = PV s x \<and> RC s' x = RC s x
           \<and> payload s' x = payload s x \<and> live s' x = live s x"
    and "NX s' a = next_b blk" "PV s' a = prev_b blk" "RC s' a = ref_cont blk"
      "payload s' a = (uri blk, text_b blk, text_len blk)" "live s' a"
      "cache s' = cache s" "brk s' = Suc a" "mutex s' = mutex s"
  by (auto simp: s'_def proj_defs payload_def)

lemma block_new_addblock:
  assumes wf: "cache_wf s ps ys" and le: "total_len s ys + n \<le> MAX_CACHE_SIZE"
    and n: "0 \<le> n" "n \<le> int (length t)" and nu: "\<forall>x\<in>set ys. URI s x \<noteq> Some u"
  shows "\<exists>s'. bnd (block_new u t n) cache_addblock s = Some (Inr ((), s'))
     \<and> cache_wf s' ps (brk s # ys) \<and> payload s' (brk s) = (Some u, Some (take (nat n) t), n)
     \<and> (\<forall>a\<in>set ys. payload s' a = payload s a) \<and> brk s' = Suc (brk s) \<and> mutex s' = mutex s"
proof -
  let ?a = "brk s"
  let ?blk = "\<lparr>text_len = n, ref_cont = 0, next_b = ?a, prev_b = ?a,
            uri = Some u, text_b = Some (take (nat n) t)\<rparr>"
  let ?s1 = "s\<lparr>heap := (heap s)(?a \<mapsto> ?blk), brk := Suc ?a\<rparr>"
  note ap = alloc_proj [where s = s and a = ?a and blk = ?blk]
  have lk: "linked s ys" using wf by (simp add: cache_wf_def)
  have ok: "\<forall>x\<in>set ys. block_ok s ps x" using wf by (simp add: cache_wf_def)
  have ne: "x \<noteq> ?a" if "x \<in> set ys" for x using ok that by (auto simp: block_ok_def)
  have fresh: "?a \<notin> set ys" using ne by auto
  have same1: "NX ?s1 x = NX s x \<and> PV ?s1 x = PV s x \<and> RC ?s1 x = RC s x
           \<and> payload ?s1 x = payload s x \<and> live ?s1 x = live s x" if "x \<in> set ys" for x
    using ap(1) [OF ne [OF that]] .
  have lk1: "linked ?s1 ys"
    using lk same1 by (intro linked_frame [OF lk]) (auto simp: linked_def)
  have c1: "cache ?s1 = Some \<lparr>size_c = total_len s ys,
       start = (case ys of [] \<Rightarrow> None | x # _ \<Rightarrow> Some x)\<rparr>"
    using wf by (simp add: cache_wf_def)
  have new: "block_new u t n s = Some (Inr (?a, ?s1))" using n by (rule block_new_run)
  have "\<exists>s'. cache_addblock ?a ?s1 = Some (Inr ((), s')) \<and> same_data ?s1 s' \<and> linked s' (?a # ys)
      \<and> RC s' = (RC ?s1)(?a := RC ?s1 ?a + 1)
      \<and> cache s' = Some \<lparr>size_c = total_len s ys + TL ?s1 ?a, start = Some ?a\<rparr>"
  proof (cases "ys = []")
    case True
    from cache_addblock_empty [OF c1 _ ap(6)] True
    obtain s' where s': "cache_addblock ?a ?s1 = Some (Inr ((), s'))" "same_data ?s1 s'"
      "NX s' = NX ?s1" "PV s' = PV ?s1" "RC s' = (RC ?s1)(?a := RC ?s1 ?a + 1)"
      "cache s' = Some \<lparr>size_c = total_len s ys + TL ?s1 ?a, start = Some ?a\<rparr>"
      by auto
    have "linked s' [?a]"
      using s'(2,3,4) ap(2,3,6) by (intro linked_single) (simp_all add: same_data_def)
    then show ?thesis using s' True by auto
  next
    case False
    then have st: "start \<lparr>size_c = total_len s ys,
       start = (case ys of [] \<Rightarrow> None | x # _ \<Rightarrow> Some x)\<rparr> = Some (hd ys)"
      by (cases ys) simp_all
    have h: "hd ys \<in> set ys" "last ys \<in> set ys" using False by simp_all
    have pv: "PV ?s1 (hd ys) = last ys"
      using same1 [OF h(1)] linked_ends(1) [OF lk False] by simp
    have lv: "live ?s1 (hd ys)" "live ?s1 (PV ?s1 (hd ys))"
      using lk1 h pv by (auto simp: linked_def)
    from cache_addblock_nonempty [OF c1 st ap(6) lv] ne [OF h(1)] ne [OF h(2)] pv
    obtain s' where s': "cache_addblock ?a ?s1 = Some (Inr ((), s'))" "same_data ?s1 s'"
      "NX s' = (NX ?s1)(?a := hd ys, last ys := ?a)" "PV s' = (PV ?s1)(?a := last ys, hd ys := ?a)"
      "RC s' = (RC ?s1)(?a := RC ?s1 ?a + 1)"
      "cache s' = Some \<lparr>size_c = total_len s ys + TL ?s1 ?a, start = Some ?a\<rparr>"
      by auto
    have "linked s' (?a # ys)"
      using lk1 False fresh s'(2) ap(6)
      by (intro linked_push [OF lk1 False fresh _ _ s'(3,4)]) (auto simp: same_data_def linked_def)
    then show ?thesis using s' by auto
  qed
  then obtain s' where s': "cache_addblock ?a ?s1 = Some (Inr ((), s'))" "same_data ?s1 s'"
      "linked s' (?a # ys)" "RC s' = (RC ?s1)(?a := RC ?s1 ?a + 1)"
      "cache s' = Some \<lparr>size_c = total_len s ys + TL ?s1 ?a, start = Some ?a\<rparr>"
    by auto
  have pa: "payload s' ?a = (Some u, Some (take (nat n) t), n)"
    using same_data_payload [OF s'(2)] ap(5) by simp
  have pl: "\<forall>x\<in>set ys. payload s' x = payload s x"
    using same_data_payload [OF s'(2)] same1 by simp
  have b: "brk s' = Suc ?a" "mutex s' = mutex s" using s'(2) by (simp_all add: same_data_def)
  have tla: "TL ?s1 ?a = n" "TL s' ?a = n" using pa ap(5) by (simp_all add: payload_def)
  have tl: "total_len s' (?a # ys) = total_len s ys + n"
    using total_len_cong [OF pl] tla by (simp add: total_len_def)
  have nps: "?a \<notin> set ps" using wf fresh by (auto simp: cache_wf_def)
  have oka: "block_ok s' ps ?a"
    using pa b(1) n nps s'(4) ap(4)
    by (auto simp: block_ok_def payload_def count_list_0_iff [THEN iffD2])
  have oks: "block_ok s' ps x" if "x \<in> set ys" for x
  proof (rule block_ok_cong)
    show "block_ok s ps x" using ok that by simp
    show "payload s' x = payload s x" using pl that by simp
    show "RC s' x = RC s x" using s'(4) same1 [OF that] ne [OF that] by simp
    show "brk s \<le> brk s'" using b by simp
  qed
  have "URI s' ?a = Some u" using pa by (simp add: payload_def)
  moreover have "distinct (map (URI s) ys)" using wf by (simp add: cache_wf_def)
  ultimately have d: "distinct (map (URI s') (?a # ys))"
    using nu by (auto simp: map_URI_cong [OF pl])
  have "cache_wf s' ps (?a # ys)"
    unfolding cache_wf_def using s'(3,5) tl tla oka oks d wf le
    by (auto simp: cache_wf_def)
  moreover have "bnd (block_new u t n) cache_addblock s = Some (Inr ((), s'))"
    using new s'(1) by (simp add: bnd_ok)
  ultimately show ?thesis using pa pl b by blast
qed

lemma lock_run: "\<not> mutex s \<Longrightarrow> pthread_mutex_lock s = Some (Inr ((), s\<lparr>mutex := True\<rparr>))"
  by (simp add: pthread_mutex_lock_def)

lemma cache_insert_present:
  assumes "cache_wf s ps xs" "\<not> mutex s" "x \<in> set xs" "URI s x = Some u"
  shows "cache_insert u t n s = Some (Inr ((), s))"
proof -
  let ?s0 = "s\<lparr>mutex := True\<rparr>"
  have wf0: "cache_wf ?s0 ps xs" using assms(1) by simp
  obtain y where y: "find (\<lambda>x. URI ?s0 x = Some u) xs = Some y"
    using assms(3,4) by (cases "find (\<lambda>x. URI ?s0 x = Some u) xs") (auto simp: find_None_iff)
  have "?s0\<lparr>mutex := False\<rparr> = s" using assms(2) by simp
  then show ?thesis
    unfolding cache_insert_def
    using lock_run [OF assms(2)] cache_findblock_ok [OF wf0, of u] y
    by (simp add: bnd_ok ret_def pthread_mutex_unlock_def)
qed

lemma cache_insert_new:
  assumes wf: "cache_wf s ps xs" and mx: "\<not> mutex s" and nu: "\<forall>x\<in>set xs. URI s x \<noteq> Some u"
    and n: "0 \<le> n" "n \<le> int (length t)" "n \<le> MAX_CACHE_SIZE"
  shows "case cache_insert u t n s of
      None \<Rightarrow> \<exists>k<length xs. xs ! k \<in> set ps \<and> MAX_CACHE_SIZE < total_len s (take (Suc k) xs) + n
    | Some (Inl e) \<Rightarrow> False
    | Some (Inr (_, s')) \<Rightarrow> \<exists>k. evicted_to s xs n k \<and> cache_wf s' ps (brk s # take k xs)
         \<and> payload s' (brk s) = (Some u, Some (take (nat n) t), n)
         \<and> (\<forall>a\<in>set (take k xs). payload s' a = payload s a)
         \<and> brk s' = Suc (brk s) \<and> \<not> mutex s'"
proof -
  let ?s0 = "s\<lparr>mutex := True\<rparr>"
  have wf0: "cache_wf ?s0 ps xs" using wf by simp
  have fnd: "find (\<lambda>x. URI ?s0 x = Some u) xs = None" using nu by (simp add: find_None_iff)
  have eq: "cache_insert u t n s =
      bnd (bnd (cache_insert_loop n) (\<lambda>_. bnd (block_new u t n) cache_addblock))
          (\<lambda>_. pthread_mutex_unlock) ?s0"
    unfolding cache_insert_def
    using lock_run [OF mx] cache_findblock_ok [OF wf0, of u] fnd
    by (simp add: bnd_ok)
  have ev: "evicted_to ?s0 xs n k = evicted_to s xs n k" for k by (simp add: evicted_to_def)
  note loop = cache_insert_loop_ok [OF wf0 n(3)]
  show ?thesis
  proof (cases "cache_insert_loop n ?s0")
    case None
    then show ?thesis using loop eq by (simp add: bnd_None)
  next
    case (Some res)
    then obtain s1 k where res: "res = Inr ((), s1)" and k: "evicted_to s xs n k"
      "cache_wf s1 ps (take k xs)" "\<forall>a\<in>set (take k xs). payload s1 a = payload s a"
      "brk s1 = brk s" "mutex s1"
      using loop ev by (cases res) auto
    have le: "total_len s1 (take k xs) + n \<le> MAX_CACHE_SIZE"
      using k(1) total_len_cong [OF k(3)] by (simp add: evicted_to_def)
    have nu1: "\<forall>x\<in>set (take k xs). URI s1 x \<noteq> Some u"
      using nu k(3) by (auto simp: payload_eq dest: in_set_takeD)
    from block_new_addblock [OF k(2) le n(1,2) nu1]
    obtain s2 where s2: "bnd (block_new u t n) cache_addblock s1 = Some (Inr ((), s2))"
      "cache_wf s2 ps (brk s1 # take k xs)"
      "payload s2 (brk s1) = (Some u, Some (take (nat n) t), n)"
      "\<forall>a\<in>set (take k xs). payload s2 a = payload s1 a" "brk s2 = Suc (brk s1)"
      by auto
    have "cache_insert u t n s = Some (Inr ((), s2\<lparr>mutex := False\<rparr>))"
      using eq Some res s2(1) by (simp add: bnd_ok pthread_mutex_unlock_def)
    moreover have "\<forall>a\<in>set (take k xs). payload s2 a = payload s a" using s2(4) k(3) by simp
    ultimately show ?thesis using k s2 by (auto intro!: exI [of _ k])
  qed
qed

lemma bnd_assoc: "bnd (bnd m f) g = bnd m (\<lambda>x. bnd (f x) g)"
  by (rule ext) (simp add: bnd_def split: option.splits sum.splits)

lemma find_unique:
  assumes "distinct (map f xs)" "a \<in> set xs" "f a = v"
  shows "find (\<lambda>x. f x = v) xs = Some a"
  using assms by (induction xs) auto

lemma cache_wf_cong:
  assumes "cache_wf s ps xs" "linked s' xs" "cache s' = cache s"
    "\<forall>x\<in>set xs. payload s' x = payload s x"
    "\<forall>x\<in>set xs. RC s' x = 1 + int (count_list ps' x)" "brk s \<le> brk s'" "set ps' \<subseteq> set xs"
  shows "cache_wf s' ps' xs"
proof -
  have "block_ok s' ps' x" if "x \<in> set xs" for x
  proof -
    have "block_ok s ps x" using assms(1) that by (simp add: cache_wf_def)
    moreover have "payload s' x = payload s x" using assms(4) that by simp
    ultimately show ?thesis using assms(5,6) that by (auto simp: block_ok_def payload_eq)
  qed
  then show ?thesis
    using assms(1,2,3,7)
    by (simp add: cache_wf_def total_len_cong [OF assms(4)] map_URI_cong [OF assms(4)])
qed

lemma store_rc_inc:
  assumes "live s a"
  shows "\<exists>s'. store a (\<lambda>b. b\<lparr>ref_cont := ref_cont b + 1\<rparr>) s = Some (Inr ((), s'))
     \<and> same_data s s' \<and> NX s' = NX s \<and> PV s' = PV s \<and> RC s' = (RC s)(a := RC s a + 1)
     \<and> cache s' = cache s"
  using assms by (auto simp: run_defs same_data_def proj_defs fun_eq_iff)

lemma store_rc_dec:
  assumes "live s a"
  shows "\<exists>s'. store a (\<lambda>b. b\<lparr>ref_cont := ref_cont b - 1\<rparr>) s = Some (Inr ((), s'))
     \<and> same_data s s' \<and> NX s' = NX s \<and> PV s' = PV s \<and> RC s' = (RC s)(a := RC s a - 1)
     \<and> cache s' = cache s"
  using assms by (auto simp: run_defs same_data_def proj_defs fun_eq_iff)

lemma size_fix_run:
  assumes "live s a" "cache s = Some c"
  shows "bnd (load a) (\<lambda>b. store_cache (\<lambda>c. c\<lparr>size_c := size_c c - text_len b\<rparr>)) s
     = Some (Inr ((), s\<lparr>cache := Some (c\<lparr>size_c := size_c c - TL s a\<rparr>)\<rparr>))"
  using assms by (auto simp: run_defs proj_defs)

lemma cache_upd_proj [simp]:
  "NX (s\<lparr>cache := c\<rparr>) = NX s" "PV (s\<lparr>cache := c\<rparr>) = PV s" "RC (s\<lparr>cache := c\<rparr>) = RC s"
  "payload (s\<lparr>cache := c\<rparr>) = payload s" "live (s\<lparr>cache := c\<rparr>) = live s"
  "linked (s\<lparr>cache := c\<rparr>) xs = linked s xs" "total_len (s\<lparr>cache := c\<rparr>) xs = total_len s xs"
  "TL (s\<lparr>cache := c\<rparr>) = TL s" "URI (s\<lparr>cache := c\<rparr>) = URI s" "TXT (s\<lparr>cache := c\<rparr>) = TXT s"
  by (simp_all add: proj_defs payload_def linked_def total_len_def fun_eq_iff)

lemma mutex_upd_proj [simp]:
  "NX (s\<lparr>mutex := c\<rparr>) = NX s" "PV (s\<lparr>mutex := c\<rparr>) = PV s" "RC (s\<lparr>mutex := c\<rparr>) = RC s"
  "live (s\<lparr>mutex := c\<rparr>) = live s" "linked (s\<lparr>mutex := c\<rparr>) xs = linked s xs"
  by (simp_all add: proj_defs linked_def fun_eq_iff)

text \<open>moving a block that is not at the front to the front\<close>

lemma move_to_front:
  assumes wf: "cache_wf s ps (us @ a # vs)" and ne: "us \<noteq> []"
  shows "\<exists>s'. bnd (unlink a) (\<lambda>_. bnd (cache_addblock a) (\<lambda>_.
           bnd (load a) (\<lambda>b. store_cache (\<lambda>c. c\<lparr>size_c := size_c c - text_len b\<rparr>)))) s
         = Some (Inr ((), s'))
     \<and> cache_wf s' (a # ps) (a # us @ vs) \<and> (\<forall>x. payload s' x = payload s x)
     \<and> brk s' = brk s \<and> mutex s' = mutex s"
proof -
  let ?xs = "us @ a # vs" and ?ws = "vs @ us" and ?ys = "us @ vs"
  have lk: "linked s ?xs" using wf by (simp add: cache_wf_def)
  have d: "distinct ?xs" and lv: "\<forall>x\<in>set ?xs. live s x" using lk by (simp_all add: linked_def)
  have rot: "linked s (a # ?ws)" using linked_rotate [of s us "a # vs"] lk by simp
  have wne: "?ws \<noteq> []" using ne by simp
  note h = linked_hd [OF rot wne]
  have mem: "hd ?ws \<in> set ?ws" "last ?ws \<in> set ?ws" using wne by (simp_all del: set_append)
  have c: "cache s = Some \<lparr>size_c = total_len s ?xs, start = Some (hd ?ys)\<rparr>"
    using wf ne by (cases us) (auto simp: cache_wf_def)
  have "live s a" "live s (NX s a)" "live s (PV s a)" "NX s a \<noteq> a" "PV s a \<noteq> a"
    using h lv d mem by auto
  from unlink_run [OF this]
  obtain s1 where s1: "unlink a s = Some (Inr ((), s1))" "same_data s s1" "cache s1 = cache s"
    "NX s1 = (NX s)(last ?ws := hd ?ws)" "PV s1 = (PV s)(hd ?ws := last ?ws)" "RC s1 = RC s"
    using h by auto
  have lv1: "live s1 = live s" using s1(2) by (simp add: same_data_def)
  have "linked s1 ?ws"
    using lv lv1 by (intro linked_pop [OF rot wne _ s1(4,5)]) auto
  then have lk1: "linked s1 ?ys" using linked_rotate [of s1 us vs] by simp
  have yne: "?ys \<noteq> []" using ne by simp
  have a_ys: "a \<notin> set ?ys" using d by auto
  have mem2: "hd ?ys \<in> set ?ys" "last ?ys \<in> set ?ys" using yne by (simp_all del: set_append)
  have pv1: "PV s1 (hd ?ys) = last ?ys" using linked_ends(1) [OF lk1 yne] .
  have "live s1 a" "live s1 (hd ?ys)" "live s1 (PV s1 (hd ?ys))" "a \<noteq> hd ?ys" "a \<noteq> PV s1 (hd ?ys)"
    using lv lv1 pv1 mem2 a_ys by auto
  from cache_addblock_nonempty [OF _ _ this, of "\<lparr>size_c = total_len s ?xs, start = Some (hd ?ys)\<rparr>"]
  obtain s2 where s2: "cache_addblock a s1 = Some (Inr ((), s2))" "same_data s1 s2"
     "NX s2 = (NX s1)(a := hd ?ys, last ?ys := a)" "PV s2 = (PV s1)(a := last ?ys, hd ?ys := a)"
     "RC s2 = (RC s1)(a := RC s1 a + 1)"
     "cache s2 = Some \<lparr>size_c = total_len s ?xs + TL s1 a, start = Some a\<rparr>"
    using s1(3) c pv1 by auto
  have lv2: "live s2 = live s" using s2(2) lv1 by (simp add: same_data_def)
  have lk2: "linked s2 (a # ?ys)"
    using lv lv2 by (intro linked_push [OF lk1 yne a_ys _ _ s2(3,4)]) auto
  let ?s3 = "s2\<lparr>cache := Some \<lparr>size_c = total_len s ?xs, start = Some a\<rparr>\<rparr>"
  have tl: "TL s2 = TL s" "TL s1 = TL s" using s1(2) s2(2) by (simp_all add: same_data_def)
  have s3: "bnd (load a) (\<lambda>b. store_cache (\<lambda>c. c\<lparr>size_c := size_c c - text_len b\<rparr>)) s2
     = Some (Inr ((), ?s3))"
    using size_fix_run [OF _ s2(6), of a] lv lv2 tl by simp
  have pl: "payload ?s3 x = payload s x" for x
    using same_data_payload [OF s1(2)] same_data_payload [OF s2(2)] by simp
  have tot: "total_len s (a # ?ys) = total_len s ?xs" by (simp add: total_len_def)
  have okx: "block_ok ?s3 (a # ps) x" if "x \<in> set (a # ?ys)" for x
  proof -
    have "block_ok s ps x" using wf that by (auto simp: cache_wf_def)
    moreover have "RC ?s3 x = 1 + int (count_list (a # ps) x)"
      using s2(5) s1(6) calculation by (auto simp: block_ok_def)
    moreover have "brk ?s3 = brk s" using s1(2) s2(2) by (simp add: same_data_def)
    ultimately show ?thesis using pl [of x] by (auto simp: block_ok_def payload_eq)
  qed
  have "distinct (map (URI s) ?xs)" using wf by (simp add: cache_wf_def)
  moreover have fe: "URI ?s3 = URI s" "TL ?s3 = TL s"
    using pl by (auto simp: payload_def fun_eq_iff)
  ultimately have du: "distinct (map (URI ?s3) (a # ?ys))" by auto
  have tot3: "total_len ?s3 (a # ?ys) = total_len s ?xs"
    using tot fe(2) by (simp add: total_len_def)
  have "set ps \<subseteq> set ?xs" "total_len s ?xs \<le> MAX_CACHE_SIZE" using wf by (simp_all add: cache_wf_def)
  then have "cache_wf ?s3 (a # ps) (a # ?ys)"
    unfolding cache_wf_def
    using lk2 okx du tot3 by auto
  moreover have "brk ?s3 = brk s" "mutex ?s3 = mutex s"
    using s1(2) s2(2) by (simp_all add: same_data_def)
  ultimately show ?thesis using s1(1) s2(1) s3 pl by (simp add: bnd_ok)
qed

lemma cache_gettext_pin_eq:
  "cache_gettext_pin u =
     bnd pthread_mutex_lock (\<lambda>_.
     bnd (cache_findblock u) (\<lambda>found.
     case found of
       None \<Rightarrow> bnd pthread_mutex_unlock (\<lambda>_. ret None)
     | Some block \<Rightarrow>
         bnd load_cache (\<lambda>c.
         bnd (if Some block = start c
              then store block (\<lambda>b. b\<lparr>ref_cont := ref_cont b + 1\<rparr>)
              else bnd (unlink block) (\<lambda>_. bnd (cache_addblock block) (\<lambda>_.
                bnd (load block) (\<lambda>b.
                store_cache (\<lambda>c. c\<lparr>size_c := size_c c - text_len b\<rparr>))))) (\<lambda>_.
         bnd pthread_mutex_unlock (\<lambda>_.
         ret (Some block))))))"
  by (simp add: cache_gettext_pin_def unlink_def bnd_assoc cong: if_cong option.case_cong)

lemma linked_same:
  assumes "linked s xs" "same_data s s'" "NX s' = NX s" "PV s' = PV s"
  shows "linked s' xs"
proof -
  have "live s' = live s" using assms(2) by (simp add: same_data_def)
  then show ?thesis using assms(1) by (simp add: linked_def assms(3,4))
qed

lemma cache_wf_linked: "cache_wf s ps xs \<Longrightarrow> linked s xs"
  by (simp add: cache_wf_def)

lemma cache_gettext_pin_miss:
  assumes "cache_wf s ps xs" "\<not> mutex s" "\<forall>x\<in>set xs. URI s x \<noteq> Some u"
  shows "cache_gettext_pin u s = Some (Inr (None, s))"
proof -
  let ?s0 = "s\<lparr>mutex := True\<rparr>"
  have wf0: "cache_wf ?s0 ps xs" using assms(1) by simp
  have "find (\<lambda>x. URI ?s0 x = Some u) xs = None" using assms(3) by (simp add: find_None_iff)
  moreover have "?s0\<lparr>mutex := False\<rparr> = s" using assms(2) by simp
  ultimately show ?thesis
    unfolding cache_gettext_pin_def
    using lock_run [OF assms(2)] cache_findblock_ok [OF wf0, of u]
    by (simp add: bnd_ok ret_def pthread_mutex_unlock_def)
qed

lemma cache_gettext_pin_hit:
  assumes wf: "cache_wf s ps xs" and mx: "\<not> mutex s" and a: "a \<in> set xs" "URI s a = Some u"
  shows "\<exists>s'. cache_gettext_pin u s = Some (Inr (Some a, s'))
     \<and> cache_wf s' (a # ps) (a # remove1 a xs) \<and> (\<forall>x. payload s' x = payload s x)
     \<and> brk s' = brk s \<and> \<not> mutex s'"
proof -
  let ?s0 = "s\<lparr>mutex := True\<rparr>"
  have wf0: "cache_wf ?s0 ps xs" using wf by simp
  have d: "distinct (map (URI ?s0) xs)" "distinct xs" using wf0 by (simp_all add: cache_wf_def linked_def)
  have fnd: "find (\<lambda>x. URI ?s0 x = Some u) xs = Some a"
    using find_unique [OF d(1) a(1)] a(2) by simp
  obtain c where c: "cache ?s0 = Some c" "start c = (case xs of [] \<Rightarrow> None | x # _ \<Rightarrow> Some x)"
    using wf0 by (auto simp: cache_wf_def)
  have lc: "load_cache ?s0 = Some (Inr (c, ?s0))" using c(1) by (simp add: load_cache_def)
  have "\<exists>s1. (if Some a = start c
              then store a (\<lambda>b. b\<lparr>ref_cont := ref_cont b + 1\<rparr>)
              else bnd (unlink a) (\<lambda>_. bnd (cache_addblock a) (\<lambda>_.
                bnd (load a) (\<lambda>b.
                store_cache (\<lambda>c. c\<lparr>size_c := size_c c - text_len b\<rparr>))))) ?s0 = Some (Inr ((), s1))
     \<and> cache_wf s1 (a # ps) (a # remove1 a xs) \<and> (\<forall>x. payload s1 x = payload s x)
     \<and> brk s1 = brk s"
  proof (cases "Some a = start c")
    case True
    then obtain vs where xs: "xs = a # vs" using c(2) by (cases xs) auto
    have "live ?s0 a" using wf0 a(1) by (auto simp: cache_wf_def linked_def)
    from store_rc_inc [OF this]
    obtain s1 where s1: "store a (\<lambda>b. b\<lparr>ref_cont := ref_cont b + 1\<rparr>) ?s0 = Some (Inr ((), s1))"
      "same_data ?s0 s1" "NX s1 = NX ?s0" "PV s1 = PV ?s0" "RC s1 = (RC ?s0)(a := RC ?s0 a + 1)"
      "cache s1 = cache ?s0"
      by auto
    have lk: "linked s1 xs"
      using linked_same [OF cache_wf_linked [OF wf0] s1(2,3,4)] .
    have rc: "\<forall>x\<in>set xs. RC s1 x = 1 + int (count_list (a # ps) x)"
      using wf0 s1(5) by (auto simp: cache_wf_def block_ok_def)
    have "set (a # ps) \<subseteq> set xs" using wf a(1) by (auto simp: cache_wf_def)
    then have "cache_wf s1 (a # ps) xs"
      using same_data_payload [OF s1(2)] s1(2)
      by (intro cache_wf_cong [OF wf0 lk s1(6) _ rc]) (auto simp: same_data_def)
    then show ?thesis using True s1(1,2) xs same_data_payload [OF s1(2)]
      by (auto simp: same_data_def)
  next
    case False
    obtain us vs where xs: "xs = us @ a # vs" using split_list [OF a(1)] by auto
    have ne: "us \<noteq> []" using False c(2) xs by (cases us) auto
    have "a \<notin> set us" using d(2) xs by auto
    then have rm: "remove1 a xs = us @ vs" using xs by (simp add: remove1_append)
    from move_to_front [OF wf0 [unfolded xs] ne]
    show ?thesis using False rm by auto
  qed
  then obtain s1 where s1: "(if Some a = start c
              then store a (\<lambda>b. b\<lparr>ref_cont := ref_cont b + 1\<rparr>)
              else bnd (unlink a) (\<lambda>_. bnd (cache_addblock a) (\<lambda>_.
                bnd (load a) (\<lambda>b.
                store_cache (\<lambda>c. c\<lparr>size_c := size_c c - text_len b\<rparr>))))) ?s0 = Some (Inr ((), s1))"
     "cache_wf s1 (a # ps) (a # remove1 a xs)" "\<forall>x. payload s1 x = payload s x" "brk s1 = brk s"
    by blast
  have "cache_gettext_pin u s = Some (Inr (Some a, s1\<lparr>mutex := False\<rparr>))"
    unfolding cache_gettext_pin_eq
    using lock_run [OF mx] cache_findblock_ok [OF wf0, of u] fnd lc s1(1)
    by (simp add: bnd_ok ret_def pthread_mutex_unlock_def)
  then show ?thesis using s1(2,3,4) by simp
qed

lemma count_list_remove1_nat:
  "a \<in> set ps \<Longrightarrow> count_list (remove1 a ps) x = count_list ps x - (if x = a then 1 else 0)"
  apply (induction ps)
   apply simp
  subgoal for b ps
    apply (cases "a = b")
     apply simp
    apply simp
    done
  done

lemma count_list_remove1:
  "a \<in> set ps \<Longrightarrow> int (count_list (remove1 a ps) x) = int (count_list ps x) - (if x = a then 1 else 0)"
proof -
  assume a: "a \<in> set ps"
  then have "count_list ps a \<noteq> 0" by (simp add: count_list_0_iff)
  then show ?thesis using count_list_remove1_nat [OF a, of x] by (cases "x = a") simp_all
qed

lemma cache_gettext_unpin_ok:
  assumes wf: "cache_wf s ps xs" and mx: "\<not> mutex s" and a: "a \<in> set ps"
  shows "\<exists>s'. cache_gettext_unpin a s = Some (Inr ((), s'))
     \<and> cache_wf s' (remove1 a ps) xs \<and> (\<forall>x. payload s' x = payload s x)
     \<and> brk s' = brk s \<and> \<not> mutex s'"
proof -
  let ?s0 = "s\<lparr>mutex := True\<rparr>"
  have wf0: "cache_wf ?s0 ps xs" using wf by simp
  have "a \<in> set xs" using wf a by (auto simp: cache_wf_def)
  then have "live ?s0 a" using wf0 by (auto simp: cache_wf_def linked_def)
  from store_rc_dec [OF this]
  obtain s1 where s1: "store a (\<lambda>b. b\<lparr>ref_cont := ref_cont b - 1\<rparr>) ?s0 = Some (Inr ((), s1))"
      "same_data ?s0 s1" "NX s1 = NX ?s0" "PV s1 = PV ?s0" "RC s1 = (RC ?s0)(a := RC ?s0 a - 1)"
      "cache s1 = cache ?s0"
    by auto
  have lk: "linked s1 xs"
    using linked_same [OF cache_wf_linked [OF wf0] s1(2,3,4)] .
  have rc: "\<forall>x\<in>set xs. RC s1 x = 1 + int (count_list (remove1 a ps) x)"
  proof
    fix x assume "x \<in> set xs"
    then have "RC ?s0 x = 1 + int (count_list ps x)"
      using wf0 by (simp add: cache_wf_def block_ok_def)
    then show "RC s1 x = 1 + int (count_list (remove1 a ps) x)"
      unfolding s1(5) count_list_remove1 [OF a] by (cases "x = a") simp_all
  qed
  have "set (remove1 a ps) \<subseteq> set xs" using wf set_remove1_subset [of a ps] by (auto simp: cache_wf_def)
  then have "cache_wf s1 (remove1 a ps) xs"
    using same_data_payload [OF s1(2)] s1(2)
    by (intro cache_wf_cong [OF wf0 lk s1(6) _ rc]) (auto simp: same_data_def)
  moreover have "cache_gettext_unpin a s = Some (Inr ((), s1\<lparr>mutex := False\<rparr>))"
    unfolding cache_gettext_unpin_def
    using lock_run [OF mx] s1(1) by (simp add: bnd_ok pthread_mutex_unlock_def)
  ultimately show ?thesis using s1(2) same_data_payload [OF s1(2)]
    by (auto simp: same_data_def)
qed

lemma live_blk: "live s a \<Longrightarrow> \<exists>b. heap s a = Some b \<and> TXT s a = text_b b \<and> TL s a = text_len b
    \<and> URI s a = uri b \<and> RC s a = ref_cont b \<and> NX s a = next_b b \<and> PV s a = prev_b b"
  by (auto simp: proj_defs)

lemma cache_gettext_miss:
  assumes "cache_wf s ps xs" "\<not> mutex s" "\<forall>x\<in>set xs. URI s x \<noteq> Some u"
  shows "cache_gettext u f s = Some (Inr ((False, f), s))"
  unfolding cache_gettext_def using cache_gettext_pin_miss [OF assms]
  by (simp add: bnd_ok ret_def)

lemma cache_gettext_hit:
  assumes wf: "cache_wf s ps xs" and mx: "\<not> mutex s" and a: "a \<in> set xs" "URI s a = Some u"
  shows "\<exists>s' t. TXT s a = Some t \<and> TL s a = int (length t)
     \<and> cache_gettext u f s = Some (Inr ((True, snd (rio_writen f t)), s'))
     \<and> cache_wf s' ps (a # remove1 a xs) \<and> (\<forall>x. payload s' x = payload s x)
     \<and> brk s' = brk s \<and> \<not> mutex s'"
proof -
  from cache_gettext_pin_hit [OF wf mx a]
  obtain s1 where s1: "cache_gettext_pin u s = Some (Inr (Some a, s1))"
     "cache_wf s1 (a # ps) (a # remove1 a xs)" "\<forall>x. payload s1 x = payload s x"
     "brk s1 = brk s" "\<not> mutex s1"
    by auto
  have "block_ok s ps a" using wf a(1) by (simp add: cache_wf_def)
  then obtain t where t: "TXT s a = Some t" "int (length t) = TL s a"
    by (auto simp: block_ok_def)
  have "live s1 a" using s1(2) by (simp add: cache_wf_def linked_def)
  then obtain b where b: "heap s1 a = Some b" "TXT s1 a = text_b b" "TL s1 a = text_len b"
    using live_blk by blast
  have bt: "text_b b = Some t" "text_len b = int (length t)"
    using b(2,3) t s1(3) by (simp_all add: payload_eq)
  have ld: "load a s1 = Some (Inr (b, s1))" using b(1) by (simp add: load_def)
  from cache_gettext_unpin_ok [OF s1(2,5), of a]
  obtain s2 where s2: "cache_gettext_unpin a s1 = Some (Inr ((), s2))"
     "cache_wf s2 ps (a # remove1 a xs)" "\<forall>x. payload s2 x = payload s1 x"
     "brk s2 = brk s1" "\<not> mutex s2"
    by auto
  have "cache_gettext u f s = Some (Inr ((True, snd (rio_writen f t)), s2))"
    unfolding cache_gettext_def using s1(1) ld bt s2(1)
    by (simp add: bnd_ok ret_def)
  then show ?thesis using t s2 s1 by auto
qed

lemma cache_init_ok:
  "\<exists>s'. cache_init s = Some (Inr ((), s')) \<and> cache_wf s' [] [] \<and> \<not> mutex s' \<and> brk s' = brk s"
  by (simp add: cache_init_def cache_wf_def linked_def total_len_def MAX_CACHE_SIZE_def)

lemma cache_free_empty:
  assumes "cache_wf s ps []"
  shows "cache_free s = Some (Inr ((), s\<lparr>cache := None\<rparr>))"
  using assms by (simp add: cache_free_def cache_wf_def run_defs)

lemma cache_free_spin:
  assumes wf: "cache_wf s ps xs" and ne: "xs \<noteq> []"
  shows "cache_free s = None"
proof -
  obtain a ws where xs: "xs = a # ws" using ne by (cases xs) auto
  have lk: "linked s (a # ws)" using wf xs by (simp add: cache_wf_def)
  have c: "cache s = Some \<lparr>size_c = total_len s xs, start = Some a\<rparr>"
    using wf xs by (simp add: cache_wf_def)
  define y where "y = (if ws = [] then a else hd ws)"
  have "(a, y) \<in> cyc (a # ws)" by (simp add: cyc_Cons y_def)
  then have nx: "NX s a = y" "PV s y = a" using lk by (auto simp: linked_def)
  have "y \<in> set (a # ws)" by (simp add: y_def)
  then have lv: "live s a" "live s y" using lk by (auto simp: linked_def)
  obtain b where b: "heap s a = Some b" "next_b b = y" using live_blk [OF lv(1)] nx by auto
  obtain nb where nb: "heap s y = Some nb" "prev_b nb = a" using live_blk [OF lv(2)] nx by auto
  have "block_ok s ps a" using wf xs by (simp add: cache_wf_def)
  then have "RC s a \<noteq> 0" by (simp add: block_ok_def)
  then have "block_free a s = None" by (rule block_free_spin)
  then have "cache_free_loop a s = None"
    using b nb by (subst cache_free_loop.simps) (simp add: run_defs)
  then show ?thesis using c by (simp add: cache_free_def run_defs)
qed

lemma step_inv:
  assumes "sys_inv st" "op_ok x"
  shows "case step x st of
           None \<Rightarrow> snd st \<noteq> [] \<and> (\<exists>u t n. x = Insert u t n)
         | Some (Inl e) \<Rightarrow> False
         | Some (Inr st') \<Rightarrow> sys_inv st' \<and> (\<not> is_Pin x \<and> snd st = [] \<longrightarrow> snd st' = [])"
proof -
  obtain s ps where st: "st = (s, ps)" by (cases st)
  obtain xs where wf: "cache_wf s ps xs" and mx: "\<not> mutex s"
    using assms(1) st by (auto simp: sys_inv_def)
  show ?thesis
  proof (cases x)
    case (Insert u t n)
    then have n: "0 \<le> n" "n \<le> int (length t)" "n \<le> MAX_CACHE_SIZE"
      using assms(2) by (simp_all add: MAX_OBJECT_SIZE_def MAX_CACHE_SIZE_def)
    show ?thesis
    proof (cases "\<forall>x\<in>set xs. URI s x \<noteq> Some u")
      case True
      from cache_insert_new [OF wf mx True n]
      show ?thesis using st Insert
        by (cases "cache_insert u t n s")
           (auto simp: lift_def sys_inv_def split: sum.splits)
    next
      case False
      then obtain a where "a \<in> set xs" "URI s a = Some u" by auto
      from cache_insert_present [OF wf mx this]
      show ?thesis using st Insert wf mx by (auto simp: lift_def sys_inv_def)
    qed
  next
    case (Gettext u)
    show ?thesis
    proof (cases "\<forall>x\<in>set xs. URI s x \<noteq> Some u")
      case True
      from cache_gettext_miss [OF wf mx True]
      show ?thesis using st Gettext wf mx by (auto simp: lift_def sys_inv_def)
    next
      case False
      then obtain a where a: "a \<in> set xs" "URI s a = Some u" by auto
      from cache_gettext_hit [OF wf mx a, of "\<lparr>written = [], credit = None\<rparr>"]
      show ?thesis using st Gettext by (auto simp: lift_def sys_inv_def)
    qed
  next
    case (Pin u)
    show ?thesis
    proof (cases "\<forall>x\<in>set xs. URI s x \<noteq> Some u")
      case True
      from cache_gettext_pin_miss [OF wf mx True]
      show ?thesis using st Pin wf mx by (auto simp: lift_def sys_inv_def)
    next
      case False
      then obtain a where a: "a \<in> set xs" "URI s a = Some u" by auto
      from cache_gettext_pin_hit [OF wf mx a]
      show ?thesis using st Pin by (auto simp: lift_def sys_inv_def)
    qed
  next
    case (Unpin i)
    show ?thesis
    proof (cases "i < length ps")
      case True
      then have "ps ! i \<in> set ps" by simp
      from cache_gettext_unpin_ok [OF wf mx this]
      show ?thesis using st Unpin True by (auto simp: lift_def sys_inv_def)
    next
      case False
      then show ?thesis using st Unpin wf mx by (auto simp: sys_inv_def)
    qed
  qed
qed

lemma run_inv:
  assumes "sys_inv st" "list_all op_ok ops"
  shows "case run ops st of
           None \<Rightarrow> list_ex is_Pin ops \<or> snd st \<noteq> []
         | Some (Inl e) \<Rightarrow> False
         | Some (Inr st') \<Rightarrow> sys_inv st'"
  using assms
proof (induction ops arbitrary: st)
  case Nil
  then show ?case by simp
next
  case (Cons x ops)
  note s = step_inv [OF Cons.prems(1), of x]
  show ?case
  proof (cases "step x st")
    case None
    then show ?thesis using s Cons.prems by auto
  next
    case (Some r)
    then obtain st' where r: "r = Inr st'" and st': "sys_inv st'" "\<not> is_Pin x \<and> snd st = [] \<longrightarrow> snd st' = []"
      using s Cons.prems by (cases r) auto
    from Cons.IH [OF st'(1)] Cons.prems(2) st'(2)
    show ?thesis using Some r by (auto split: option.splits sum.splits)
  qed
qed

lemma adj_nth: "Suc i < length xs \<Longrightarrow> (xs ! i, xs ! Suc i) \<in> adj xs"
proof (induction xs arbitrary: i rule: adj.induct)
  case (3 x y zs)
  then show ?case by (cases i) auto
qed simp_all

lemma linked_nth:
  assumes "linked s xs" "Suc i < length xs"
  shows "NX s (xs ! i) = xs ! Suc i"
proof -
  have "xs \<noteq> []" using assms(2) by auto
  then have "(xs ! i, xs ! Suc i) \<in> cyc xs" using adj_nth [OF assms(2)] by (simp add: cyc_adj)
  then show ?thesis using assms(1) by (auto simp: linked_def)
qed

lemma linked_prefix:
  assumes "linked s xs" "linked s ys" "xs \<noteq> []" "ys \<noteq> []" "hd xs = hd ys"
  shows "i < length xs \<Longrightarrow> i < length ys \<Longrightarrow> xs ! i = ys ! i"
proof (induction i)
  case 0
  then show ?case using assms(3-5) by (simp add: hd_conv_nth)
next
  case (Suc i)
  then have "xs ! i = ys ! i" by simp
  then show ?case using linked_nth [OF assms(1) Suc.prems(1)] linked_nth [OF assms(2) Suc.prems(2)]
    by simp
qed

lemma linked_length_le:
  assumes "linked s xs" "linked s ys" "xs \<noteq> []" "ys \<noteq> []" "hd xs = hd ys"
  shows "length ys \<le> length xs"
proof (rule ccontr)
  assume "\<not> length ys \<le> length xs"
  then have lt: "length xs < length ys" by simp
  let ?n = "length xs"
  have n: "0 < ?n" using assms(3) by simp
  have "xs ! (?n - 1) = ys ! (?n - 1)"
    using linked_prefix [OF assms, of "?n - 1"] n lt by simp
  then have "last xs = ys ! (?n - 1)" using assms(3) by (simp add: last_conv_nth)
  moreover have "NX s (ys ! (?n - 1)) = ys ! ?n"
    using linked_nth [OF assms(2), of "?n - 1"] n lt by simp
  moreover have "NX s (last xs) = hd xs" using linked_ends(2) [OF assms(1,3)] .
  ultimately have "ys ! ?n = ys ! 0" using assms(4,5) by (simp add: hd_conv_nth)
  moreover have "distinct ys" using assms(2) by (simp add: linked_def)
  ultimately have "?n = 0" using lt assms(4) nth_eq_iff_index_eq [of ys ?n 0] by simp
  then show False using n by simp
qed

lemma cache_list_unique:
  assumes "cache_list s xs" "cache_list s ys"
  shows "xs = ys"
proof (cases "xs = [] \<or> ys = []")
  case True
  then show ?thesis using assms by (cases xs; cases ys) (auto simp: cache_list_def)
next
  case False
  then have ne: "xs \<noteq> []" "ys \<noteq> []" by auto
  have l: "linked s xs" "linked s ys" using assms by (simp_all add: cache_list_def)
  have hd: "hd xs = hd ys" using assms ne by (cases xs; cases ys) (auto simp: cache_list_def)
  have "length xs = length ys"
    using linked_length_le [OF l ne hd] linked_length_le [OF l(2,1) ne(2,1) hd [symmetric]] by simp
  then show ?thesis using linked_prefix [OF l ne hd] by (auto intro: nth_equalityI)
qed

lemma cache_wf_list: "cache_wf s ps xs \<Longrightarrow> cache_list s xs"
  by (simp add: cache_wf_def cache_list_def)

lemma inv_init: "cache_init s0 = Some (Inr ((), s1)) \<Longrightarrow> sys_inv (s1, [])"
  using cache_init_ok [of s0] by (auto simp: sys_inv_def)

lemma list_all_take: "list_all P xs \<Longrightarrow> list_all P (take k xs)"
  by (auto simp: list_all_iff dest: in_set_takeD)

lemma list_ex_take: "list_ex P (take k xs) \<Longrightarrow> list_ex P xs"
  by (auto simp: list_ex_iff dest: in_set_takeD)

lemma reach_wf:
  assumes "list_all op_ok ops" "cache_init s0 = Some (Inr ((), s1))"
    "run ops (s1, []) = Some (Inr (s, ps))" "cache_list s xs"
  shows "cache_wf s ps xs" "\<not> mutex s"
proof -
  from run_inv [OF inv_init [OF assms(2)] assms(1)] assms(3)
  obtain ys where wf: "cache_wf s ps ys" "\<not> mutex s" by (auto simp: sys_inv_def)
  then show "cache_wf s ps xs" "\<not> mutex s"
    using cache_list_unique [OF assms(4) cache_wf_list [OF wf(1)]] by simp_all
qed

lemma rio_writen_written:
  "credit f \<noteq> Some 0 \<Longrightarrow> written (snd (rio_writen f t)) = written f @ t"
  by (auto simp: rio_writen_def split: option.splits nat.splits)

lemma evicted_all:
  assumes "evicted_to s xs n k" "total_len s xs + n \<le> MAX_CACHE_SIZE"
  shows "k = length xs"
proof (rule ccontr)
  assume "k \<noteq> length xs"
  then have "k < length xs" using assms(1) by (simp add: evicted_to_def)
  then have "MAX_CACHE_SIZE < total_len s (take (length xs) xs) + n"
    using assms(1) unfolding evicted_to_def by blast
  then show False using assms(2) by simp
qed

lemma evicted_one:
  assumes "evicted_to s xs n k" "xs \<noteq> []" "MAX_CACHE_SIZE < total_len s xs + n"
    "total_len s (butlast xs) + n \<le> MAX_CACHE_SIZE"
  shows "take k xs = butlast xs"
proof -
  have k: "k \<le> length xs" "total_len s (take k xs) + n \<le> MAX_CACHE_SIZE"
    using assms(1) by (simp_all add: evicted_to_def)
  have "k \<noteq> length xs" using k(2) assms(3) by auto
  moreover have "\<not> k < length xs - 1"
  proof
    assume "k < length xs - 1"
    then have "MAX_CACHE_SIZE < total_len s (take (length xs - 1) xs) + n"
      using assms(1) unfolding evicted_to_def by (metis diff_le_self)
    then show False using assms(4) by (simp add: butlast_conv_take)
  qed
  ultimately have "k = length xs - 1" using k(1) by simp
  then show ?thesis by (simp add: butlast_conv_take)
qed

lemma insert_fits:
  assumes wf: "cache_wf s [] xs" and mx: "\<not> mutex s" and nu: "\<forall>x\<in>set xs. URI s x \<noteq> Some u"
    and n: "n = int (length t)" and fit: "total_len s xs + n \<le> MAX_CACHE_SIZE"
  shows "\<exists>s'. cache_insert u t n s = Some (Inr ((), s')) \<and> cache_wf s' [] (brk s # xs) \<and> \<not> mutex s'
     \<and> map (payload s') (brk s # xs) = (Some u, Some t, n) # map (payload s) xs"
proof -
  have "0 \<le> total_len s xs" using wf unfolding total_len_def cache_wf_def block_ok_def
    by (auto intro!: sum_list_nonneg)
  then have n': "0 \<le> n" "n \<le> int (length t)" "n \<le> MAX_CACHE_SIZE" using n fit by simp_all
  note ins = cache_insert_new [OF wf mx nu n']
  show ?thesis
  proof (cases "cache_insert u t n s")
    case None
    then show ?thesis using ins by simp
  next
    case (Some res)
    then obtain s' k where res: "res = Inr ((), s')"
      and s': "evicted_to s xs n k" "cache_wf s' [] (brk s # take k xs)"
        "payload s' (brk s) = (Some u, Some (take (nat n) t), n)"
        "\<forall>a\<in>set (take k xs). payload s' a = payload s a" "\<not> mutex s'"
      using ins by (cases res) auto
    have k: "take k xs = xs" using evicted_all [OF s'(1) fit] by simp
    have "map (payload s') xs = map (payload s) xs" using s'(4) k by simp
    then show ?thesis using Some res s' k n by simp
  qed
qed

lemma insert_evict_one:
  assumes wf: "cache_wf s [] xs" and mx: "\<not> mutex s" and nu: "\<forall>x\<in>set xs. URI s x \<noteq> Some u"
    and n: "n = int (length t)" "n \<le> MAX_CACHE_SIZE" and ne: "xs \<noteq> []"
    and over: "MAX_CACHE_SIZE < total_len s xs + n"
    and fit: "total_len s (butlast xs) + n \<le> MAX_CACHE_SIZE"
  shows "\<exists>s'. cache_insert u t n s = Some (Inr ((), s')) \<and> cache_wf s' [] (brk s # butlast xs)
     \<and> \<not> mutex s'
     \<and> map (payload s') (brk s # butlast xs) = (Some u, Some t, n) # butlast (map (payload s) xs)"
proof -
  have n': "0 \<le> n" "n \<le> int (length t)" "n \<le> MAX_CACHE_SIZE" using n by simp_all
  note ins = cache_insert_new [OF wf mx nu n']
  show ?thesis
  proof (cases "cache_insert u t n s")
    case None
    then show ?thesis using ins by simp
  next
    case (Some res)
    then obtain s' k where res: "res = Inr ((), s')"
      and s': "evicted_to s xs n k" "cache_wf s' [] (brk s # take k xs)"
        "payload s' (brk s) = (Some u, Some (take (nat n) t), n)"
        "\<forall>a\<in>set (take k xs). payload s' a = payload s a" "\<not> mutex s'"
      using ins by (cases res) auto
    have k: "take k xs = butlast xs" using evicted_one [OF s'(1) ne over fit] .
    have "map (payload s') (butlast xs) = map (payload s) (butlast xs)" using s'(4) k by simp
    then show ?thesis using Some res s' k n by (simp add: map_butlast)
  qed
qed

lemma total_len_payload: "total_len s xs = sum_list (map (\<lambda>p. snd (snd p)) (map (payload s) xs))"
  by (simp add: total_len_def payload_def comp_def)

lemma absent_payload:
  "Some u \<notin> set (map fst (map (payload s) xs)) \<Longrightarrow> \<forall>x\<in>set xs. URI s x \<noteq> Some u"
  by (auto simp: payload_def image_iff)

lemma run_Insert:
  assumes "cache_insert u t n s = Some (Inr ((), s'))"
  shows "run (Insert u t n # ops) (s, ps) = run ops (s', ps)"
  using assms by (simp add: lift_def)

lemma run_Gettext:
  assumes "cache_gettext u \<lparr>written = [], credit = None\<rparr> s = Some (Inr (r, s'))"
  shows "run (Gettext u # ops) (s, ps) = run ops (s', ps)"
  using assms by (simp add: lift_def)

lemma three_inserts:
  assumes init: "cache_init s0 = Some (Inr ((), s1))"
    and keys: "distinct [A, B, C]"
    and len: "a = int (length ta)" "b = int (length tb)" "c = int (length tc)"
    and fit3: "a + b + c \<le> MAX_CACHE_SIZE"
  obtains s x1 x2 x3 where "cache_wf s [] [x3, x2, x1]" "\<not> mutex s"
     "map (payload s) [x3, x2, x1] = [(Some C, Some tc, c), (Some B, Some tb, b), (Some A, Some ta, a)]"
     "\<And>ops. run (Insert A ta a # Insert B tb b # Insert C tc c # ops) (s1, []) = run ops (s, [])"
proof -
  from cache_init_ok [of s0] init have s1: "cache_wf s1 [] []" "\<not> mutex s1" by auto
  have nn: "0 \<le> a" "0 \<le> b" "0 \<le> c" using len by simp_all
  from insert_fits [OF s1, of A a ta] len(1) nn fit3
  obtain s2 where s2: "cache_insert A ta a s1 = Some (Inr ((), s2))" "cache_wf s2 [] [brk s1]"
    "\<not> mutex s2" "map (payload s2) [brk s1] = [(Some A, Some ta, a)]"
    by (auto simp: total_len_def)
  have "\<forall>x\<in>set [brk s1]. URI s2 x \<noteq> Some B"
    using keys by (intro absent_payload) (simp only: s2(4), auto)
  moreover have "total_len s2 [brk s1] + b \<le> MAX_CACHE_SIZE"
    using fit3 nn by (simp only: total_len_payload s2(4), simp)
  ultimately obtain s3 where s3: "cache_insert B tb b s2 = Some (Inr ((), s3))"
    "cache_wf s3 [] [brk s2, brk s1]" "\<not> mutex s3"
    "map (payload s3) [brk s2, brk s1] = [(Some B, Some tb, b), (Some A, Some ta, a)]"
    using insert_fits [OF s2(2,3) _ len(2)] s2(4) by auto
  have "\<forall>x\<in>set [brk s2, brk s1]. URI s3 x \<noteq> Some C"
    using keys by (intro absent_payload) (simp only: s3(4), auto)
  moreover have "total_len s3 [brk s2, brk s1] + c \<le> MAX_CACHE_SIZE"
    using fit3 nn by (simp only: total_len_payload s3(4), simp)
  ultimately obtain s4 where s4: "cache_insert C tc c s3 = Some (Inr ((), s4))"
    "cache_wf s4 [] [brk s3, brk s2, brk s1]" "\<not> mutex s4"
    "map (payload s4) [brk s3, brk s2, brk s1]
       = [(Some C, Some tc, c), (Some B, Some tb, b), (Some A, Some ta, a)]"
    using insert_fits [OF s3(2,3) _ len(3)] s3(4) by auto
  have r: "run (Insert A ta a # Insert B tb b # Insert C tc c # ops) (s1, []) = run ops (s4, [])" for ops
    by (simp only: run_Insert [OF s2(1)] run_Insert [OF s3(1)] run_Insert [OF s4(1)])
  show ?thesis by (rule that [OF s4(2,3,4) r])
qed

lemmas exec_defs = bnd_def ret_def abort_def load_def store_def load_cache_def store_cache_def
  pthread_mutex_lock_def pthread_mutex_unlock_def cache_findblock_def cache_addblock_def
  cache_remblock_unlink_def cache_remblock_def cache_insert_def block_new_def block_empty_def
  cache_gettext_pin_def cache_gettext_unpin_def cache_gettext_def cache_init_def
  MAX_CACHE_SIZE_def MAX_OBJECT_SIZE_def Let_def

lemmas example_defs = after_init_def block_a_def one_entry_def one_pinned_def boot_def

lemma init_boot: "cache_init boot = Some (Inr ((), after_init))"
  by (simp add: cache_init_def after_init_def)

lemma insert_a: "cache_insert ''/a'' ''xyz'' 3 after_init = Some (Inr ((), one_entry))"
  by (simp add: exec_defs example_defs cache_insert_loop.simps)

lemma pin_a: "cache_gettext_pin ''/a'' one_entry = Some (Inr (Some 0, one_pinned))"
  by (simp add: exec_defs example_defs findblock_loop.simps)

lemma run_insert_a: "run [Insert ''/a'' ''xyz'' 3] (after_init, []) = Some (Inr (one_entry, []))"
  by (simp add: insert_a lift_def)

lemma run_pin_a:
  "run [Insert ''/a'' ''xyz'' 3, Pin ''/a''] (after_init, []) = Some (Inr (one_pinned, [0]))"
  by (simp add: insert_a pin_a lift_def)

lemma list_one_entry: "cache_list one_entry [0]"
  by (simp add: cache_list_def linked_def cyc_def live_def NX_def PV_def example_defs)

lemma list_one_pinned: "cache_list one_pinned [0]"
  by (simp add: cache_list_def linked_def cyc_def live_def NX_def PV_def example_defs)

lemma list_after_init: "cache_list after_init []"
  by (simp add: cache_list_def linked_def cyc_def example_defs)

lemma unat_max: "unat (word_of_int MAX_OBJECT_SIZE :: 64 word) = 102400"
  by (simp add: MAX_OBJECT_SIZE_def)

lemma unat_step:
  assumes "unat (w :: 64 word) = n" "n + l < 2 ^ 64"
  shows "unat (w + of_nat l) = n + l"
  using assms by (simp add: unat_word_ariths unat_of_nat)

lemma sint_small:
  assumes "unat (w :: 64 word) < 102400"
  shows "sint w = int (unat w)"
proof -
  have "uint w < 2 ^ 63" using assms by (simp add: uint_nat [symmetric] flip: of_nat_less_iff [where 'a = int])
  moreover have "- (2 ^ 63) \<le> uint w" by (rule order_trans [of _ 0]) simp_all
  ultimately have "signed_take_bit 63 (uint w) = uint w"
    by (intro signed_take_bit_int_eq_self)
  then show ?thesis by (simp add: sint_uint)
qed

lemma rio_writen_ok:
  "credit f = None \<Longrightarrow> rio_writen f buf = (int (length buf), f\<lparr>written := written f @ buf\<rparr>)"
  by (simp add: rio_writen_def)

lemma relay_ok:
  assumes "credit client = None" "\<forall>c\<in>set chunks. c \<noteq> []"
    "n0 + length (concat chunks) < 2 ^ 64" "unat input_len = n0"
    "n0 < 102400 \<longrightarrow> length cache_input = n0"
  shows "\<exists>ci. relay chunks client input_len cache_input
           = Inr (True, client\<lparr>written := written client @ concat chunks\<rparr>,
                  of_nat (n0 + length (concat chunks)), ci)
         \<and> (n0 + length (concat chunks) < 102400 \<longrightarrow> ci = cache_input @ concat chunks)"
  using assms
proof (induction chunks arbitrary: client input_len cache_input n0)
  case Nil
  then show ?case by auto
next
  case (Cons buf rest)
  let ?l = "length buf"
  let ?w = "input_len + of_nat ?l"
  let ?client = "client\<lparr>written := written client @ buf\<rparr>"
  have ne: "buf \<noteq> []" using Cons.prems(2) by simp
  have wr: "rio_writen client buf = (int ?l, ?client)" using Cons.prems(1) by (rule rio_writen_ok)
  have un: "unat ?w = n0 + ?l" using Cons.prems(3,4) by (intro unat_step) simp_all
  have lt: "?w < word_of_int MAX_OBJECT_SIZE \<longleftrightarrow> n0 + ?l < 102400"
    by (simp add: word_less_nat_alt unat_max un)
  have p: "credit ?client = None" "\<forall>c\<in>set rest. c \<noteq> []" "(n0 + ?l) + length (concat rest) < 2 ^ 64"
    using Cons.prems(1,2,3) by simp_all
  show ?case
  proof (cases "n0 + ?l < 102400")
    case True
    then have len: "length cache_input = n0" using Cons.prems(5) by simp
    have q: "n0 + ?l < 102400 \<longrightarrow> length (cache_input @ buf) = n0 + ?l" using len by simp
    from Cons.IH [OF p un q]
    obtain ci where ci: "relay rest ?client ?w (cache_input @ buf)
           = Inr (True, ?client\<lparr>written := written ?client @ concat rest\<rparr>,
                  of_nat (n0 + ?l + length (concat rest)), ci)"
        "n0 + ?l + length (concat rest) < 102400 \<longrightarrow> ci = (cache_input @ buf) @ concat rest"
      by blast
    have "relay (buf # rest) client input_len cache_input = relay rest ?client ?w (cache_input @ buf)"
      using ne wr lt True len by (simp add: MAX_OBJECT_SIZE_def)
    then show ?thesis using ci by (simp add: add.assoc)
  next
    case False
    then have q: "n0 + ?l < 102400 \<longrightarrow> length cache_input = n0 + ?l" by simp
    from Cons.IH [OF p un q]
    obtain ci where ci: "relay rest ?client ?w cache_input
           = Inr (True, ?client\<lparr>written := written ?client @ concat rest\<rparr>,
                  of_nat (n0 + ?l + length (concat rest)), ci)"
      by blast
    have "relay (buf # rest) client input_len cache_input = relay rest ?client ?w cache_input"
      using ne wr lt False by simp
    then show ?thesis using ci False by (simp add: add.assoc)
  qed
qed

lemma serve_relay:
  assumes "parse env = Parsed request host_line headers"
    and "cache_gettext (r_uri request) client s = Some (Inr ((False, client), s))"
    and "connects env"
    and "write_header (server env) request host_line headers (stack_buf env) = Inr (0, fd_server)"
    and "credit client = None"
    and "\<forall>c\<in>set (response env). c \<noteq> []"
    and "length (concat (response env)) < 2 ^ 64"
  shows "serve env client s =
     (if int (length (concat (response env))) < MAX_OBJECT_SIZE
      then bnd (cache_insert (r_uri request) (concat (response env))
                  (int (length (concat (response env)))))
               (\<lambda>_. ret (served client (response env) fd_server)) s
      else Some (Inr (served client (response env) fd_server, s)))"
proof -
  let ?n = "length (concat (response env))"
  from relay_ok [OF assms(5,6), of 0 0 "[]"] assms(7)
  obtain ci where ci: "relay (response env) client 0 []
           = Inr (True, client\<lparr>written := written client @ concat (response env)\<rparr>, of_nat ?n, ci)"
         "?n < 102400 \<longrightarrow> ci = concat (response env)"
    by auto
  have un: "unat (of_nat ?n :: 64 word) = ?n" using assms(7) by (simp add: unat_of_nat)
  have lt: "(of_nat ?n :: 64 word) < word_of_int MAX_OBJECT_SIZE \<longleftrightarrow> ?n < 102400"
    by (simp add: word_less_nat_alt unat_max un)
  have si: "?n < 102400 \<Longrightarrow> sint (of_nat ?n :: 64 word) = int ?n"
    using sint_small [of "of_nat ?n"] un by simp
  show ?thesis
    using assms(1-4) ci lt si
    by (simp add: serve_def bnd_def ret_def served_def MAX_OBJECT_SIZE_def)
qed

lemma write_header_ex:
  "write_header ex_fd ex_request None [] (replicate 8192 CHR ''?'') = Inr (0, ex_server)"
  by (simp add: write_header_def sprintf_def rio_writen_def ex_fd_def ex_request_def
        ex_server_def ex_wire_def ex_block_def CRLF_def header_user_agent_def)

lemma miss_after_init: "cache_gettext u f after_init = Some (Inr ((False, f), after_init))"
  using cache_init_ok [of boot] init_boot by (intro cache_gettext_miss [of _ "[]" "[]"]) auto

lemma insert_blocked:
  assumes wf: "cache_wf s ps (ys @ [r])" and mx: "\<not> mutex s" and pin: "r \<in> set ps"
    and nu: "\<forall>x\<in>set (ys @ [r]). URI s x \<noteq> Some u"
    and over: "MAX_CACHE_SIZE < total_len s (ys @ [r]) + n"
  shows "cache_insert u t n s = None"
    and "\<exists>w. bnd pthread_mutex_lock (\<lambda>_. bnd (cache_findblock u) (\<lambda>_. cache_remblock_unlink)) s
                = Some (Inr (r, w))
           \<and> mutex w \<and> live w r \<and> RC w r = int (count_list ps r) \<and> URI w r = URI s r
           \<and> block_free r w = None \<and> cache_gettext_unpin r w = None"
proof -
  let ?s0 = "s\<lparr>mutex := True\<rparr>"
  have wf0: "cache_wf ?s0 ps (ys @ [r])" using wf by simp
  have fnd: "find (\<lambda>x. URI ?s0 x = Some u) (ys @ [r]) = None"
    using nu by (auto simp: find_None_iff)
  have fb: "cache_findblock u ?s0 = Some (Inr (None, ?s0))"
    using cache_findblock_ok [OF wf0, of u] fnd by simp
  have c: "cache ?s0 = Some \<lparr>size_c = total_len s (ys @ [r]), start = Some (hd (ys @ [r]))\<rparr>"
    using wf0 by (cases ys) (auto simp: cache_wf_def)
  have "cache_insert_loop n ?s0 = bnd cache_remblock (\<lambda>_. cache_insert_loop n) ?s0"
    using c over by (subst cache_insert_loop.simps) (simp add: run_defs)
  then have "cache_insert_loop n ?s0 = None"
    using cache_remblock_spin [OF wf0 pin] by (simp add: bnd_None)
  then show "cache_insert u t n s = None"
    unfolding cache_insert_def using lock_run [OF mx] fb by (simp add: bnd_ok bnd_None)
  from cache_remblock_unlink_ok [OF wf0]
  obtain w where w: "cache_remblock_unlink ?s0 = Some (Inr (r, w))" "same_data ?s0 w"
    "RC w r = RC ?s0 r - 1" "live w r"
    by auto
  have "block_ok ?s0 ps r" using wf0 by (simp add: cache_wf_def)
  then have rc: "RC w r = int (count_list ps r)" using w(3) by (simp add: block_ok_def)
  have "count_list ps r \<noteq> 0" using pin by (simp add: count_list_0_iff)
  then have "RC w r \<noteq> 0" using rc by simp
  then have bf: "block_free r w = None" by (rule block_free_spin)
  have m1: "mutex w" and u1: "URI w r = URI s r" using w(2) by (simp_all add: same_data_def URI_def)
  from m1 have "pthread_mutex_lock w = None" by (simp add: pthread_mutex_lock_def)
  then have up: "cache_gettext_unpin r w = None"
    by (simp add: cache_gettext_unpin_def bnd_None)
  have "bnd pthread_mutex_lock (\<lambda>_. bnd (cache_findblock u) (\<lambda>_. cache_remblock_unlink)) s
                = Some (Inr (r, w))"
    using lock_run [OF mx] fb w(1) by (simp add: bnd_ok)
  then show "\<exists>w. bnd pthread_mutex_lock (\<lambda>_. bnd (cache_findblock u) (\<lambda>_. cache_remblock_unlink)) s
                = Some (Inr (r, w))
           \<and> mutex w \<and> live w r \<and> RC w r = int (count_list ps r) \<and> URI w r = URI s r
           \<and> block_free r w = None \<and> cache_gettext_unpin r w = None"
    using m1 u1 w(4) rc bf up by blast
qed

lemma total_len_take:
  assumes "cache_wf s ps xs"
  shows "total_len s (take k xs) \<le> total_len s xs"
proof -
  have "0 \<le> total_len s (drop k xs)"
    using assms unfolding total_len_def cache_wf_def block_ok_def
    by (auto intro!: sum_list_nonneg dest!: in_set_dropD)
  moreover have "total_len s xs = total_len s (take k xs) + total_len s (drop k xs)"
    unfolding total_len_def by (metis append_take_drop_id map_append sum_list_append)
  ultimately show ?thesis by simp
qed

lemma insert_fits_pinned:
  assumes wf: "cache_wf s ps xs" and mx: "\<not> mutex s" and nu: "\<forall>x\<in>set xs. URI s x \<noteq> Some u"
    and n: "n = int (length t)" and fit: "total_len s xs + n \<le> MAX_CACHE_SIZE"
  shows "\<exists>s'. cache_insert u t n s = Some (Inr ((), s')) \<and> cache_wf s' ps (brk s # xs) \<and> \<not> mutex s'
     \<and> payload s' (brk s) = (Some u, Some t, n) \<and> (\<forall>a\<in>set xs. payload s' a = payload s a)"
proof -
  have "0 \<le> total_len s xs" using wf unfolding total_len_def cache_wf_def block_ok_def
    by (auto intro!: sum_list_nonneg)
  then have n': "0 \<le> n" "n \<le> int (length t)" "n \<le> MAX_CACHE_SIZE" using n fit by simp_all
  note ins = cache_insert_new [OF wf mx nu n']
  show ?thesis
  proof (cases "cache_insert u t n s")
    case None
    then obtain k where "MAX_CACHE_SIZE < total_len s (take (Suc k) xs) + n" using ins by auto
    then show ?thesis using total_len_take [OF wf, of "Suc k"] fit by simp
  next
    case (Some res)
    then obtain s' k where res: "res = Inr ((), s')"
      and s': "evicted_to s xs n k" "cache_wf s' ps (brk s # take k xs)"
        "payload s' (brk s) = (Some u, Some (take (nat n) t), n)"
        "\<forall>a\<in>set (take k xs). payload s' a = payload s a" "\<not> mutex s'"
      using ins by (cases res) auto
    have k: "take k xs = xs" using evicted_all [OF s'(1) fit] by simp
    show ?thesis using Some res s' k n by simp
  qed
qed

lemma fill:
  assumes "cache_wf s ps xs" "\<not> mutex s" "distinct us" "\<forall>x\<in>set xs. URI s x \<notin> Some ` set us"
    and "n = int (length t)" "total_len s xs + int (length us) * n \<le> MAX_CACHE_SIZE"
  shows "\<exists>s' ys. run (map (\<lambda>u. Insert u t n) us) (s, ps) = Some (Inr (s', ps))
     \<and> cache_wf s' ps (ys @ xs) \<and> \<not> mutex s'
     \<and> total_len s' (ys @ xs) = total_len s xs + int (length us) * n
     \<and> (\<forall>x\<in>set ys. URI s' x \<in> Some ` set us) \<and> (\<forall>a\<in>set xs. payload s' a = payload s a)"
  using assms
proof (induction us arbitrary: s xs)
  case Nil
  then show ?case by simp
next
  case (Cons u us)
  have n0: "0 \<le> n" using Cons.prems(5) by simp
  have nu: "\<forall>x\<in>set xs. URI s x \<noteq> Some u" using Cons.prems(4) by auto
  have "0 \<le> int (length us) * n" using n0 by simp
  then have fit: "total_len s xs + n \<le> MAX_CACHE_SIZE"
    using Cons.prems(6) by (simp add: algebra_simps)
  from insert_fits_pinned [OF Cons.prems(1,2) nu Cons.prems(5) fit]
  obtain s1 where s1: "cache_insert u t n s = Some (Inr ((), s1))" "cache_wf s1 ps (brk s # xs)"
     "\<not> mutex s1" "payload s1 (brk s) = (Some u, Some t, n)" "\<forall>a\<in>set xs. payload s1 a = payload s a"
    by blast
  have tl: "total_len s1 (brk s # xs) = n + total_len s xs"
  proof -
    have m: "map (TL s1) xs = map (TL s) xs" using s1(5) by (simp add: payload_def)
    have "TL s1 (brk s) = n" using s1(4) by (simp add: payload_def)
    then show ?thesis by (simp add: total_len_def m)
  qed
  have ur: "\<forall>x\<in>set (brk s # xs). URI s1 x \<notin> Some ` set us"
  proof
    fix x assume "x \<in> set (brk s # xs)"
    then consider "x = brk s" | "x \<in> set xs" by auto
    then show "URI s1 x \<notin> Some ` set us"
    proof cases
      case 1
      then have "URI s1 x = Some u" using s1(4) by (simp add: payload_def)
      then show ?thesis using Cons.prems(3) by auto
    next
      case 2
      then have "URI s1 x = URI s x" using s1(5) by (simp add: payload_def)
      then show ?thesis using Cons.prems(4) 2 by auto
    qed
  qed
  have fit': "total_len s1 (brk s # xs) + int (length us) * n \<le> MAX_CACHE_SIZE"
    using tl Cons.prems(6) by (simp add: algebra_simps)
  have d: "distinct us" using Cons.prems(3) by simp
  from Cons.IH [OF s1(2,3) d ur Cons.prems(5) fit']
  obtain s' ys where r: "run (map (\<lambda>u. Insert u t n) us) (s1, ps) = Some (Inr (s', ps))"
     "cache_wf s' ps (ys @ brk s # xs)" "\<not> mutex s'"
     "total_len s' (ys @ brk s # xs) = total_len s1 (brk s # xs) + int (length us) * n"
     "\<forall>x\<in>set ys. URI s' x \<in> Some ` set us" "\<forall>a\<in>set (brk s # xs). payload s' a = payload s1 a"
    by blast
  have 1: "run (map (\<lambda>u. Insert u t n) (u # us)) (s, ps) = Some (Inr (s', ps))"
    using run_Insert [OF s1(1)] r(1) by simp
  have 2: "cache_wf s' ps ((ys @ [brk s]) @ xs)" using r(2) by simp
  have 3: "total_len s' ((ys @ [brk s]) @ xs) = total_len s xs + int (length (u # us)) * n"
    using r(4) tl by (simp add: algebra_simps)
  have 4: "\<forall>x\<in>set (ys @ [brk s]). URI s' x \<in> Some ` set (u # us)"
    using r(5,6) s1(4) by (auto simp: payload_def)
  have 5: "\<forall>a\<in>set xs. payload s' a = payload s a" using r(6) s1(5) by simp
  show ?case using 1 2 r(3) 3 4 5 by blast
qed

lemma run_Pin:
  assumes "cache_gettext_pin u s = Some (Inr (Some a, s'))"
  shows "run (Pin u # ops) (s, ps) = run ops (s', a # ps)"
  using assms by (simp add: lift_def)

lemma reader_block_live:
  assumes "list_all op_ok ops" "cache_init s0 = Some (Inr ((), s1))"
    "run ops (s1, []) = Some (Inr (s, ps))" "cache_list s xs" "a \<in> set ps"
  shows "a \<in> set xs \<and> (\<exists>b. heap s a = Some b \<and> ref_cont b = 1 + int (count_list ps a))"
proof -
  note wf = reach_wf [OF assms(1-4)]
  have a: "a \<in> set xs" using wf(1) assms(5) by (auto simp: cache_wf_def)
  then have "live s a" "block_ok s ps a" using wf(1) by (simp_all add: cache_wf_def linked_def)
  then show ?thesis using a live_blk [of s a] by (auto simp: block_ok_def)
qed

lemma slow_reader_run:
  obtains s ys where "run slow_reader (after_init, []) = Some (Inr (s, [0]))"
    "cache_wf s [0] (ys @ [0])" "\<not> mutex s"
    "\<forall>x\<in>set (ys @ [0]). URI s x \<noteq> Some ''/10''"
    "MAX_CACHE_SIZE < total_len s (ys @ [0]) + 100000"
    "payload s 0 = (Some ''/0'', Some body, 100000)"
proof -
  let ?us = "[''/1'', ''/2'', ''/3'', ''/4'', ''/5'', ''/6'', ''/7'', ''/8'', ''/9'']"
  have len: "(100000::int) = int (length body)" by (simp add: body_def)
  from cache_init_ok [of boot] init_boot
  have i: "cache_wf after_init [] []" "\<not> mutex after_init" "brk after_init = 0"
    by (auto simp: boot_def)
  have f0: "total_len after_init [] + 100000 \<le> MAX_CACHE_SIZE"
    by (simp add: total_len_def MAX_CACHE_SIZE_def)
  from insert_fits_pinned [OF i(1,2) _ len f0, of "''/0''"] i(3)
  obtain s2 where s2: "cache_insert ''/0'' body 100000 after_init = Some (Inr ((), s2))"
    "cache_wf s2 [] [0]" "\<not> mutex s2" "payload s2 0 = (Some ''/0'', Some body, 100000)"
    by auto
  have u2: "URI s2 0 = Some ''/0''" using s2(4) by (simp add: payload_def)
  from cache_gettext_pin_hit [OF s2(2,3) _ u2]
  obtain s3 where s3: "cache_gettext_pin ''/0'' s2 = Some (Inr (Some 0, s3))"
    "cache_wf s3 [0] [0]" "\<forall>x. payload s3 x = payload s2 x" "\<not> mutex s3"
    by auto
  have p3: "payload s3 0 = (Some ''/0'', Some body, 100000)" using s3(3) s2(4) by simp
  have d: "distinct ?us" by simp
  have nu3: "\<forall>x\<in>set [0]. URI s3 x \<notin> Some ` set ?us" using p3 by (simp add: payload_def)
  have f3: "total_len s3 [0] + int (length ?us) * 100000 \<le> MAX_CACHE_SIZE"
    using p3 by (simp add: total_len_def payload_def MAX_CACHE_SIZE_def)
  from fill [OF s3(2,4) d nu3 len f3]
  obtain s ys where s: "run (map (\<lambda>u. Insert u body 100000) ?us) (s3, [0]) = Some (Inr (s, [0]))"
    "cache_wf s [0] (ys @ [0])" "\<not> mutex s"
    "total_len s (ys @ [0]) = total_len s3 [0] + int (length ?us) * 100000"
    "\<forall>x\<in>set ys. URI s x \<in> Some ` set ?us" "\<forall>a\<in>set [0]. payload s a = payload s3 a"
    by blast
  have p: "payload s 0 = (Some ''/0'', Some body, 100000)" using s(6) p3 by simp
  have r: "run slow_reader (after_init, []) = Some (Inr (s, [0]))"
    unfolding slow_reader_def using run_Insert [OF s2(1)] run_Pin [OF s3(1)] s(1) by simp
  have nu: "\<forall>x\<in>set (ys @ [0]). URI s x \<noteq> Some ''/10''"
  proof
    fix x assume "x \<in> set (ys @ [0])"
    then consider "x \<in> set ys" | "x = 0" by auto
    then show "URI s x \<noteq> Some ''/10''"
    proof cases
      case 1
      then have "URI s x \<in> Some ` set ?us" using s(5) by blast
      then show ?thesis by auto
    next
      case 2
      then show ?thesis using p by (simp add: payload_def)
    qed
  qed
  have ov: "MAX_CACHE_SIZE < total_len s (ys @ [0]) + 100000"
    using s(4) p3 by (simp add: total_len_def payload_def MAX_CACHE_SIZE_def)
  show thesis using that [OF r s(2,3) nu ov p] .
qed

text \<open>The round trip, as far as it holds in every state the cache reaches: the insertion
  of an absent key does not crash, it returns when no reader is active, and whenever it
  returns the lookup right after it writes exactly the inserted bytes.\<close>

lemma round_trip:
  assumes "list_all op_ok ops" "cache_init s0 = Some (Inr ((), s1))"
    "run ops (s1, []) = Some (Inr (s, ps))" "cache_list s xs"
    and absent: "\<forall>x\<in>set xs. URI s x \<noteq> Some u"
    and n: "n = int (length t)" "n \<le> MAX_OBJECT_SIZE"
    and f: "credit f \<noteq> Some 0"
  shows "(ps = [] \<longrightarrow> cache_insert u t n s \<noteq> None)
       \<and> (\<forall>e. cache_insert u t n s \<noteq> Some (Inl e))
       \<and> (\<forall>s'. cache_insert u t n s = Some (Inr ((), s')) \<longrightarrow>
             (\<exists>f' s''. cache_gettext u f s' = Some (Inr ((True, f'), s''))
                       \<and> written f' = written f @ t))"
proof -
  note wf = reach_wf [OF assms(1-4)]
  have n': "0 \<le> n" "n \<le> int (length t)" "n \<le> MAX_CACHE_SIZE"
    using n by (simp_all add: MAX_OBJECT_SIZE_def MAX_CACHE_SIZE_def)
  note ins = cache_insert_new [OF wf absent n']
  show ?thesis
  proof (cases "cache_insert u t n s")
    case None
    then have "ps \<noteq> []" using ins by auto
    then show ?thesis using None by simp
  next
    case (Some res)
    then obtain s' k where res: "res = Inr ((), s')"
      and s': "cache_wf s' ps (brk s # take k xs)"
        "payload s' (brk s) = (Some u, Some (take (nat n) t), n)" "\<not> mutex s'"
      using ins by (cases res) auto
    have a: "brk s \<in> set (brk s # take k xs)" "URI s' (brk s) = Some u"
      using s'(2) by (simp_all add: payload_def)
    from cache_gettext_hit [OF s'(1,3) a, of f]
    obtain s'' t' where g: "TXT s' (brk s) = Some t'"
      "cache_gettext u f s' = Some (Inr ((True, snd (rio_writen f t')), s''))"
      by blast
    have "t' = t" using g(1) s'(2) n(1) by (simp add: payload_def)
    then show ?thesis using Some res g(2) rio_writen_written [OF f, of t] by auto
  qed
qed

lemma round_trip_example:
  "list_all op_ok [] \<and> cache_init boot = Some (Inr ((), after_init))
   \<and> run [] (after_init, []) = Some (Inr (after_init, [])) \<and> cache_list after_init []
   \<and> (3::int) = int (length ''xyz'') \<and> (3::int) \<le> MAX_OBJECT_SIZE
   \<and> credit \<lparr>written = [], credit = None\<rparr> \<noteq> Some 0
   \<and> cache_insert ''/a'' ''xyz'' 3 after_init = Some (Inr ((), one_entry))
   \<and> (\<exists>f' s''. cache_gettext ''/a'' \<lparr>written = [], credit = None\<rparr> one_entry
                    = Some (Inr ((True, f'), s''))
                \<and> written f' = ''xyz'')"
proof -
  have ok: "list_all op_ok []" by simp
  have r: "run [] (after_init, []) = Some (Inr (after_init, []))" by simp
  have ab: "\<forall>x\<in>set []. URI after_init x \<noteq> Some ''/a''" by simp
  have n: "(3::int) = int (length ''xyz'')" "(3::int) \<le> MAX_OBJECT_SIZE"
    by (simp_all add: MAX_OBJECT_SIZE_def)
  have c: "credit \<lparr>written = [], credit = None\<rparr> \<noteq> Some 0" by simp
  from round_trip [OF ok init_boot r list_after_init ab n c] insert_a
  have "\<exists>f' s''. cache_gettext ''/a'' \<lparr>written = [], credit = None\<rparr> one_entry
                    = Some (Inr ((True, f'), s''))
                \<and> written f' = ''xyz''"
    by simp
  then show ?thesis using ok init_boot r list_after_init n c insert_a by simp
qed

section \<open>The claims\<close>

text \<open>
  C1. Start from \<^verbatim>\<open>cache_init\<close> and run any sequence of insertions of at most
  \<^verbatim>\<open>MAX_OBJECT_SIZE\<close> bytes each, lookups, and readers entering and leaving. After each
  operation (the first \<open>k\<close>, for every \<open>k\<close>) the process has not crashed, the list of
  the cache is well formed, the byte lengths of its entries sum to at most
  \<^verbatim>\<open>MAX_CACHE_SIZE\<close>, and \<^verbatim>\<open>cache->size\<close> is that sum. While no reader is between its
  two critical sections, every operation returns.
\<close>

theorem cache_size_bounded:
  assumes "list_all op_ok ops" and "cache_init s0 = Some (Inr ((), s1))"
  shows "(\<forall>e. run (take k ops) (s1, []) \<noteq> Some (Inl e))
       \<and> (\<forall>s ps xs. run (take k ops) (s1, []) = Some (Inr (s, ps)) \<and> cache_list s xs \<longrightarrow>
             total_len s xs \<le> MAX_CACHE_SIZE \<and> map_option size_c (cache s) = Some (total_len s xs))
       \<and> (\<forall>s ps. run (take k ops) (s1, []) = Some (Inr (s, ps)) \<longrightarrow> (\<exists>xs. cache_list s xs))
       \<and> (\<not> list_ex is_Pin ops \<longrightarrow> run (take k ops) (s1, []) \<noteq> None)"
proof -
  note r = run_inv [OF inv_init [OF assms(2)] list_all_take [OF assms(1), of k]]
  show ?thesis
  proof (cases "run (take k ops) (s1, [])")
    case None
    then show ?thesis using r by (auto dest: list_ex_take)
  next
    case (Some res)
    then obtain s ps where res: "res = Inr (s, ps)" and i: "sys_inv (s, ps)"
      using r by (cases res) auto
    then obtain ys where wf: "cache_wf s ps ys" by (auto simp: sys_inv_def)
    have "total_len s xs \<le> MAX_CACHE_SIZE \<and> map_option size_c (cache s) = Some (total_len s xs)"
      if "cache_list s xs" for xs
      using cache_list_unique [OF that cache_wf_list [OF wf]] wf by (simp add: cache_wf_def)
    then show ?thesis using Some res cache_wf_list [OF wf] by auto
  qed
qed

theorem cache_size_bounded_witness:
  "list_all op_ok [Insert ''/a'' ''xyz'' 3, Gettext ''/a'', Insert ''/b'' ''uvw'' 2]
   \<and> cache_init boot = Some (Inr ((), boot\<lparr>cache := Some \<lparr>size_c = 0, start = None\<rparr>, mutex := False\<rparr>))
   \<and> (\<exists>s ps xs. run (take 3 [Insert ''/a'' ''xyz'' 3, Gettext ''/a'', Insert ''/b'' ''uvw'' 2])
            (boot\<lparr>cache := Some \<lparr>size_c = 0, start = None\<rparr>, mutex := False\<rparr>, []) = Some (Inr (s, ps))
          \<and> cache_list s xs \<and> total_len s xs \<le> MAX_CACHE_SIZE)"
proof -
  let ?ops = "[Insert ''/a'' ''xyz'' 3, Gettext ''/a'', Insert ''/b'' ''uvw'' 2]"
  let ?s1 = "boot\<lparr>cache := Some \<lparr>size_c = 0, start = None\<rparr>, mutex := False\<rparr>"
  have ok: "list_all op_ok ?ops" by (simp add: MAX_OBJECT_SIZE_def)
  have init: "cache_init boot = Some (Inr ((), ?s1))" by (simp add: cache_init_def)
  have np: "\<not> list_ex is_Pin ?ops" by simp
  note t = cache_size_bounded [OF ok init, of 3]
  from t np obtain res where res: "run (take 3 ?ops) (?s1, []) = Some res" by blast
  with t obtain s ps where sp: "res = Inr (s, ps)" by (cases res) auto
  with t res obtain xs where "cache_list s xs" by blast
  with t res sp have "total_len s xs \<le> MAX_CACHE_SIZE" by blast
  with ok init res sp \<open>cache_list s xs\<close> show ?thesis by blast
qed

text \<open>
  C2. \<^verbatim>\<open>cache_free\<close> on a cache that holds one entry, with no reader anywhere: the entry
  still carries the count that \<^verbatim>\<open>cache_addblock\<close> gave it, \<^verbatim>\<open>cache_free\<close> does not take
  it back as \<^verbatim>\<open>cache_remblock\<close> does, and \<^verbatim>\<open>block_free\<close> waits for it for ever. Only on
  the empty cache does \<^verbatim>\<open>cache_free\<close> return.
\<close>

theorem cache_free_spins_on_one_entry:
  "cache_insert ''/a'' ''xyz'' 3 after_init = Some (Inr ((), one_entry))
   \<and> cache_free one_entry = None
   \<and> cache_free after_init = Some (Inr ((), after_init\<lparr>cache := None\<rparr>))"
proof -
  have "cache_wf one_entry [] [0]"
    using run_inv [OF inv_init [OF init_boot], of "[Insert ''/a'' ''xyz'' 3]"] run_insert_a
      cache_list_unique [OF list_one_entry cache_wf_list]
    by (auto simp: sys_inv_def MAX_OBJECT_SIZE_def)
  then have "cache_free one_entry = None" by (rule cache_free_spin) simp
  moreover have "cache_wf after_init [] []"
    using cache_init_ok [of boot] init_boot by simp
  then have "cache_free after_init = Some (Inr ((), after_init\<lparr>cache := None\<rparr>))"
    by (rule cache_free_empty)
  ultimately show ?thesis using insert_a by simp
qed

text \<open>
  C3 (amended). A request that misses the cache and is forwarded, with a client that
  accepts every write: the client receives every byte of the response, and the response
  is inserted under the request URI, with all its bytes, when its length is strictly less
  than \<^verbatim>\<open>MAX_OBJECT_SIZE\<close>; from \<^verbatim>\<open>MAX_OBJECT_SIZE\<close> bytes on nothing is inserted and the
  cache stays as it was. (\<open>bnd\<close>: when the insertion returns, \<^verbatim>\<open>serve\<close> returns in the
  state the insertion left.)
\<close>

theorem serve_caches_below_max:
  assumes "parse env = Parsed request host_line headers"
    and "cache_gettext (r_uri request) client s = Some (Inr ((False, client), s))"
    and "connects env"
    and "write_header (server env) request host_line headers (stack_buf env) = Inr (0, fd_server)"
    and "credit client = None"
    and "\<forall>c\<in>set (response env). c \<noteq> []"
    and "length (concat (response env)) < 2 ^ 64"
  shows "serve env client s =
     (if int (length (concat (response env))) < MAX_OBJECT_SIZE
      then bnd (cache_insert (r_uri request) (concat (response env))
                  (int (length (concat (response env)))))
               (\<lambda>_. ret (served client (response env) fd_server)) s
      else Some (Inr (served client (response env) fd_server, s)))"
  using assms by (rule serve_relay)

theorem serve_caches_below_max_witness:
  "parse ex_env = Parsed ex_request None []
   \<and> cache_gettext (r_uri ex_request) ex_fd after_init = Some (Inr ((False, ex_fd), after_init))
   \<and> connects ex_env
   \<and> write_header (server ex_env) ex_request None [] (stack_buf ex_env) = Inr (0, ex_server)
   \<and> credit ex_fd = None
   \<and> length (concat (response ex_env)) < 2 ^ 64
   \<and> serve ex_env ex_fd after_init
       = bnd (cache_insert (r_uri ex_request) ''abc'' 3)
             (\<lambda>_. ret (served ex_fd [''abc''] ex_server)) after_init"
proof -
  have p: "parse ex_env = Parsed ex_request None []" and c: "connects ex_env"
    and w: "write_header (server ex_env) ex_request None [] (stack_buf ex_env) = Inr (0, ex_server)"
    and r: "\<forall>c\<in>set (response ex_env). c \<noteq> []"
    and l: "length (concat (response ex_env)) < 2 ^ 64"
    by (simp_all add: ex_env_def write_header_ex)
  have f: "credit ex_fd = None" by (simp add: ex_fd_def)
  note m = miss_after_init [of "r_uri ex_request" ex_fd]
  from serve_caches_below_max [OF p m c w f r l]
  have "serve ex_env ex_fd after_init
       = bnd (cache_insert (r_uri ex_request) ''abc'' 3)
             (\<lambda>_. ret (served ex_fd [''abc''] ex_server)) after_init"
    by (simp add: ex_env_def MAX_OBJECT_SIZE_def)
  then show ?thesis using p m c w f l by simp
qed

text \<open>
  C3 as stated fails at a response of exactly \<^verbatim>\<open>MAX_OBJECT_SIZE\<close> bytes: it is relayed in
  full, the cache is still the empty cache afterwards, and a lookup of the URI misses.
\<close>

theorem serve_skips_exactly_max_counterexample:
  "int (length (concat (response big_env))) = MAX_OBJECT_SIZE
   \<and> serve big_env ex_fd after_init
       = Some (Inr (served ex_fd (response big_env) ex_server, after_init))
   \<and> cache_gettext (r_uri ex_request) ex_fd after_init = Some (Inr ((False, ex_fd), after_init))"
proof -
  have n: "length (concat (response big_env)) = 102400"
    by (simp add: big_env_def length_concat sum_list_replicate)
  have p: "parse big_env = Parsed ex_request None []" and c: "connects big_env"
    and w: "write_header (server big_env) ex_request None [] (stack_buf big_env) = Inr (0, ex_server)"
    and r: "\<forall>c\<in>set (response big_env). c \<noteq> []"
    by (simp_all add: big_env_def ex_env_def write_header_ex)
  have f: "credit ex_fd = None" by (simp add: ex_fd_def)
  have l: "length (concat (response big_env)) < 2 ^ 64" by (simp add: n)
  note m = miss_after_init [of "r_uri ex_request" ex_fd]
  from serve_relay [OF p m c w f r l]
  have "serve big_env ex_fd after_init
       = Some (Inr (served ex_fd (response big_env) ex_server, after_init))"
    by (simp add: n MAX_OBJECT_SIZE_def)
  then show ?thesis using n m by (simp add: MAX_OBJECT_SIZE_def)
qed

text \<open>
  C4. For the request \<^verbatim>\<open>GET http://h:80/\<close> without header lines the origin receives the
  request line, the four headers and the blank line, and after them a \<^verbatim>\<open>NUL\<close> and the
  header block once more from its fourth byte on: 140 bytes beyond the blank line.
\<close>

theorem write_header_trailing_bytes:
  "write_header ex_fd ex_request None [] (replicate 8192 CHR ''?'') = Inr (0, ex_server)
   \<and> written ex_server = ex_wire @ [CHR 0x00] @ drop 3 ex_block
   \<and> length (written ex_server) = length ex_wire + 140
   \<and> written ex_server \<noteq> ex_wire"
  by (simp add: write_header_ex) (simp add: ex_server_def ex_block_def CRLF_def header_user_agent_def)

text \<open>
  C5. A request that misses the cache and is forwarded, with a client whose first write
  fails: \<^verbatim>\<open>serve\<close> returns after \<^verbatim>\<open>parser_new\<close> and \<^verbatim>\<open>open_clientfd\<close> with neither
  \<^verbatim>\<open>parser_free\<close> nor \<^verbatim>\<open>close(fd_server)\<close>.
\<close>

theorem serve_leaks_on_client_write_failure:
  "\<exists>client'. serve ex_env (ex_fd\<lparr>credit := Some 0\<rparr>) after_init
      = Some (Inr (([Parser_new, Open_clientfd], client', Some ex_server), after_init))"
  by (simp add: serve_def ex_env_def miss_after_init bnd_def ret_def write_header_ex
        rio_writen_def)

text \<open>
  C6. The counter protects the bytes: \<^verbatim>\<open>block_free\<close> releases a block only when its
  \<^verbatim>\<open>ref_cont\<close> is 0 (lemma \<open>block_free_Some\<close>), and a block a reader holds stays allocated
  and listed (lemma \<open>reader_block_live\<close>). The wait for the counter, however, is made with
  the mutex held. After \<open>slow_reader\<close> the entry \<^verbatim>\<open>/0\<close> is the last of the list and one
  reader holds it. An eleventh response of 100000 bytes does not fit:
  \<^verbatim>\<open>cache_insert\<close> locks the mutex, \<^verbatim>\<open>cache_remblock\<close> takes \<^verbatim>\<open>/0\<close> out of the list and
  lowers its counter to 1, and in that state, the mutex locked, \<^verbatim>\<open>block_free\<close> never
  returns, nor does the reader's second critical section, which starts with
  \<^verbatim>\<open>pthread_mutex_lock\<close>. So \<^verbatim>\<open>cache_insert\<close> never returns.
\<close>

theorem insert_waits_holding_lock:
  "\<exists>s w. cache_init boot = Some (Inr ((), after_init))
     \<and> run slow_reader (after_init, []) = Some (Inr (s, [0]))
     \<and> cache_insert ''/10'' body 100000 s = None
     \<and> bnd pthread_mutex_lock (\<lambda>_. bnd (cache_findblock ''/10'') (\<lambda>_. cache_remblock_unlink)) s
          = Some (Inr (0, w))
     \<and> mutex w
     \<and> map_option uri (heap w 0) = Some (Some ''/0'')
     \<and> map_option ref_cont (heap w 0) = Some 1
     \<and> block_free 0 w = None
     \<and> cache_gettext_unpin 0 w = None"
proof (rule slow_reader_run)
  fix s ys
  assume r: "run slow_reader (after_init, []) = Some (Inr (s, [0]))"
    and wf: "cache_wf s [0] (ys @ [0])" and mx: "\<not> mutex s"
    and nu: "\<forall>x\<in>set (ys @ [0]). URI s x \<noteq> Some ''/10''"
    and ov: "MAX_CACHE_SIZE < total_len s (ys @ [0]) + 100000"
    and p: "payload s 0 = (Some ''/0'', Some body, 100000)"
  have pin: "(0::nat) \<in> set [0]" by simp
  note b = insert_blocked [OF wf mx pin nu ov]
  from b(2) obtain w where w:
    "bnd pthread_mutex_lock (\<lambda>_. bnd (cache_findblock ''/10'') (\<lambda>_. cache_remblock_unlink)) s
       = Some (Inr (0, w))"
    "mutex w" "live w 0" "RC w 0 = int (count_list [0::nat] 0)" "URI w 0 = URI s 0"
    "block_free 0 w = None" "cache_gettext_unpin 0 w = None"
    by (elim exE conjE)
  obtain blk where blk: "heap w 0 = Some blk" "RC w 0 = ref_cont blk" "URI w 0 = uri blk"
    using live_blk [OF w(3)] by blast
  have "ref_cont blk = 1" using blk(2) w(4) by simp
  moreover have "uri blk = Some ''/0''" using blk(3) w(5) p by (simp add: payload_def)
  ultimately show ?thesis using init_boot r b(1) w(1,2,6,7) blk(1) by auto
qed

text \<open>
  C7. On a fresh cache insert A, B and C, which fit together, and then D, which does not
  fit beside them but fits once one entry is gone. With no access in between, A is the
  entry removed and the list reads D, C, B. When A is looked up before D arrives, B is
  the entry removed and the list reads D, A, C.
\<close>

theorem lru_eviction_order:
  assumes init: "cache_init s0 = Some (Inr ((), s1))"
    and keys: "distinct [A, B, C, D]"
    and len: "a = int (length ta)" "b = int (length tb)" "c = int (length tc)" "d = int (length td)"
    and fit3: "a + b + c \<le> MAX_CACHE_SIZE"
    and over: "MAX_CACHE_SIZE < a + b + c + d"
    and one1: "b + c + d \<le> MAX_CACHE_SIZE" and one2: "a + c + d \<le> MAX_CACHE_SIZE"
  shows "(\<exists>s xs. run [Insert A ta a, Insert B tb b, Insert C tc c, Insert D td d] (s1, [])
                    = Some (Inr (s, []))
               \<and> cache_list s xs \<and> map (URI s) xs = [Some D, Some C, Some B])
       \<and> (\<exists>s xs. run [Insert A ta a, Insert B tb b, Insert C tc c, Gettext A, Insert D td d] (s1, [])
                    = Some (Inr (s, []))
               \<and> cache_list s xs \<and> map (URI s) xs = [Some D, Some A, Some C])"
proof -
  have k3: "distinct [A, B, C]" using keys by simp
  show ?thesis
  proof (rule three_inserts [OF init k3 len(1-3) fit3])
  fix s x1 x2 x3
  assume s: "cache_wf s [] [x3, x2, x1]" "\<not> mutex s"
     "map (payload s) [x3, x2, x1] = [(Some C, Some tc, c), (Some B, Some tb, b), (Some A, Some ta, a)]"
     and run3: "\<And>ops. run (Insert A ta a # Insert B tb b # Insert C tc c # ops) (s1, []) = run ops (s, [])"
  have nn: "0 \<le> a" "0 \<le> b" "0 \<le> c" "0 \<le> d" using len by simp_all
  have dmax: "d \<le> MAX_CACHE_SIZE" using one1 nn by simp
  have uri: "map (URI s') ys = map fst (map (payload s') ys)" for s' ys
    by (simp add: payload_def comp_def)
  \<comment> \<open>no access before the insertion of D\<close>
  have "\<forall>x\<in>set [x3, x2, x1]. URI s x \<noteq> Some D"
    using keys by (intro absent_payload) (simp only: s(3), auto)
  moreover have "MAX_CACHE_SIZE < total_len s [x3, x2, x1] + d"
    using over by (simp only: total_len_payload s(3), simp)
  moreover have "map (payload s) (butlast [x3, x2, x1]) = [(Some C, Some tc, c), (Some B, Some tb, b)]"
    using s(3) by simp
  then have "total_len s (butlast [x3, x2, x1]) + d \<le> MAX_CACHE_SIZE"
    using one1 by (simp only: total_len_payload, simp)
  ultimately obtain s5 where s5: "cache_insert D td d s = Some (Inr ((), s5))"
    "cache_wf s5 [] [brk s, x3, x2]"
    "map (payload s5) [brk s, x3, x2] = [(Some D, Some td, d), (Some C, Some tc, c), (Some B, Some tb, b)]"
    using insert_evict_one [OF s(1,2) _ len(4) dmax] s(3) by auto
  have "run [Insert A ta a, Insert B tb b, Insert C tc c, Insert D td d] (s1, [])
      = run [Insert D td d] (s, [])"
    by (rule run3)
  also have "\<dots> = run [] (s5, [])" by (rule run_Insert [OF s5(1)])
  finally have p1: "run [Insert A ta a, Insert B tb b, Insert C tc c, Insert D td d] (s1, [])
      = Some (Inr (s5, []))"
    by simp
  have q1: "cache_list s5 [brk s, x3, x2] \<and> map (URI s5) [brk s, x3, x2] = [Some D, Some C, Some B]"
    using cache_wf_list [OF s5(2)] by (simp only: uri s5(3)) simp
  \<comment> \<open>A is looked up first\<close>
  have x1: "x1 \<in> set [x3, x2, x1]" "URI s x1 = Some A" using s(3) by (simp_all add: payload_def)
  from cache_gettext_hit [OF s(1,2) x1, of "\<lparr>written = [], credit = None\<rparr>"]
  obtain g r where g: "cache_gettext A \<lparr>written = [], credit = None\<rparr> s = Some (Inr (r, g))"
    "cache_wf g [] (x1 # remove1 x1 [x3, x2, x1])" "\<forall>x. payload g x = payload s x" "\<not> mutex g"
    by blast
  have "distinct [x3, x2, x1]" using s(1) by (simp add: cache_wf_def linked_def)
  then have rm: "x1 # remove1 x1 [x3, x2, x1] = [x1, x3, x2]" by auto
  have gw: "cache_wf g [] [x1, x3, x2]" using g(2) rm by simp
  have gp: "map (payload g) [x1, x3, x2] = [(Some A, Some ta, a), (Some C, Some tc, c), (Some B, Some tb, b)]"
    using g(3) s(3) by simp
  have "\<forall>x\<in>set [x1, x3, x2]. URI g x \<noteq> Some D"
    using keys by (intro absent_payload) (simp only: gp, auto)
  moreover have "MAX_CACHE_SIZE < total_len g [x1, x3, x2] + d"
    using over by (simp only: total_len_payload gp, simp)
  moreover have "map (payload g) (butlast [x1, x3, x2]) = [(Some A, Some ta, a), (Some C, Some tc, c)]"
    using gp by simp
  then have "total_len g (butlast [x1, x3, x2]) + d \<le> MAX_CACHE_SIZE"
    using one2 by (simp only: total_len_payload, simp)
  ultimately obtain s6 where s6: "cache_insert D td d g = Some (Inr ((), s6))"
    "cache_wf s6 [] [brk g, x1, x3]"
    "map (payload s6) [brk g, x1, x3] = [(Some D, Some td, d), (Some A, Some ta, a), (Some C, Some tc, c)]"
    using insert_evict_one [OF gw g(4) _ len(4) dmax] gp by auto
  have "run [Insert A ta a, Insert B tb b, Insert C tc c, Gettext A, Insert D td d] (s1, [])
      = run [Gettext A, Insert D td d] (s, [])"
    by (rule run3)
  also have "\<dots> = run [Insert D td d] (g, [])" by (rule run_Gettext [OF g(1)])
  also have "\<dots> = run [] (s6, [])" by (rule run_Insert [OF s6(1)])
  finally have p2: "run [Insert A ta a, Insert B tb b, Insert C tc c, Gettext A, Insert D td d] (s1, [])
      = Some (Inr (s6, []))"
    by simp
  have q2: "cache_list s6 [brk g, x1, x3] \<and> map (URI s6) [brk g, x1, x3] = [Some D, Some A, Some C]"
    using cache_wf_list [OF s6(2)] by (simp only: uri s6(3)) simp
  have "\<exists>s xs. run [Insert A ta a, Insert B tb b, Insert C tc c, Insert D td d] (s1, [])
                    = Some (Inr (s, []))
               \<and> cache_list s xs \<and> map (URI s) xs = [Some D, Some C, Some B]"
    using p1 q1 by (intro exI [of _ s5] exI [of _ "[brk s, x3, x2]"]) simp
  moreover have "\<exists>s xs. run [Insert A ta a, Insert B tb b, Insert C tc c, Gettext A, Insert D td d] (s1, [])
                    = Some (Inr (s, []))
               \<and> cache_list s xs \<and> map (URI s) xs = [Some D, Some A, Some C]"
    using p2 q2 by (intro exI [of _ s6] exI [of _ "[brk g, x1, x3]"]) simp
  ultimately show ?thesis by (rule conjI)
  qed
qed

theorem lru_eviction_order_witness:
  "cache_init boot = Some (Inr ((), after_init))
   \<and> distinct [''/A'', ''/B'', ''/C'', ''/D'']
   \<and> (300000::int) = int (length (replicate 300000 CHR ''x''))
   \<and> (300000::int) + 300000 + 300000 \<le> MAX_CACHE_SIZE
   \<and> MAX_CACHE_SIZE < (300000::int) + 300000 + 300000 + 300000
   \<and> (\<exists>s xs. run [Insert ''/A'' (replicate 300000 CHR ''x'') 300000,
                    Insert ''/B'' (replicate 300000 CHR ''x'') 300000,
                    Insert ''/C'' (replicate 300000 CHR ''x'') 300000,
                    Insert ''/D'' (replicate 300000 CHR ''x'') 300000] (after_init, [])
                 = Some (Inr (s, []))
             \<and> cache_list s xs \<and> map (URI s) xs = [Some ''/D'', Some ''/C'', Some ''/B''])
   \<and> (\<exists>s xs. run [Insert ''/A'' (replicate 300000 CHR ''x'') 300000,
                    Insert ''/B'' (replicate 300000 CHR ''x'') 300000,
                    Insert ''/C'' (replicate 300000 CHR ''x'') 300000,
                    Gettext ''/A'',
                    Insert ''/D'' (replicate 300000 CHR ''x'') 300000] (after_init, [])
                 = Some (Inr (s, []))
             \<and> cache_list s xs \<and> map (URI s) xs = [Some ''/D'', Some ''/A'', Some ''/C''])"
proof -
  have k: "distinct [''/A'', ''/B'', ''/C'', ''/D'']" by simp
  have l: "(300000::int) = int (length (replicate 300000 CHR ''x''))" by simp
  have f: "(300000::int) + 300000 + 300000 \<le> MAX_CACHE_SIZE"
    and o: "MAX_CACHE_SIZE < (300000::int) + 300000 + 300000 + 300000"
    by (simp_all add: MAX_CACHE_SIZE_def)
  note t = lru_eviction_order [OF init_boot k l l l l f o f f]
  show ?thesis
    by (intro conjI) (rule init_boot k l f o t [THEN conjunct1] t [THEN conjunct2])+
qed

text \<open>
  C8. In every state the cache reaches, \<^verbatim>\<open>cache_insert\<close> of a key that is listed returns
  and leaves the whole state as it was, whatever text and length come with it; and the
  keys of the listed blocks are pairwise different.
\<close>

theorem cache_insert_first_write_wins:
  assumes "list_all op_ok ops" "cache_init s0 = Some (Inr ((), s1))"
    "run ops (s1, []) = Some (Inr (s, ps))" "cache_list s xs" "a \<in> set xs" "URI s a = Some u"
  shows "cache_insert u t n s = Some (Inr ((), s)) \<and> distinct (map (URI s) xs)"
proof -
  note wf = reach_wf [OF assms(1-4)]
  show ?thesis
    using cache_insert_present [OF wf assms(5,6)] wf(1) by (simp add: cache_wf_def)
qed

theorem cache_insert_first_write_wins_witness:
  "list_all op_ok [Insert ''/a'' ''xyz'' 3]
   \<and> cache_init boot = Some (Inr ((), after_init))
   \<and> run [Insert ''/a'' ''xyz'' 3] (after_init, []) = Some (Inr (one_entry, []))
   \<and> cache_list one_entry [0] \<and> (0::nat) \<in> set [0] \<and> URI one_entry 0 = Some ''/a''
   \<and> cache_insert ''/a'' ''other'' 5 one_entry = Some (Inr ((), one_entry))
   \<and> distinct (map (URI one_entry) [0])"
proof -
  have ok: "list_all op_ok [Insert ''/a'' ''xyz'' 3]" by (simp add: MAX_OBJECT_SIZE_def)
  have m: "(0::nat) \<in> set [0]" by simp
  have u: "URI one_entry 0 = Some ''/a''" by (simp add: URI_def example_defs)
  from cache_insert_first_write_wins [OF ok init_boot run_insert_a list_one_entry m u, of "''other''" 5]
  show ?thesis using ok init_boot run_insert_a list_one_entry u by simp
qed

text \<open>
  C9. The round trip fails where the insertion has to evict an entry that a reader holds.
  After \<open>slow_reader\<close> the key \<^verbatim>\<open>/10\<close> is not in the cache (a lookup misses and leaves
  the state as it was) and the 100000 bytes of \<open>body\<close> are within \<^verbatim>\<open>MAX_OBJECT_SIZE\<close>,
  yet \<^verbatim>\<open>cache_insert\<close> of them never returns, so the \<^verbatim>\<open>cache_gettext\<close> that follows it
  is never reached and writes nothing. Where the insertion returns the round trip holds
  (lemma \<open>round_trip\<close>).
\<close>

theorem insert_then_gettext_blocked:
  "\<exists>s. list_all op_ok slow_reader
     \<and> cache_init boot = Some (Inr ((), after_init))
     \<and> run slow_reader (after_init, []) = Some (Inr (s, [0]))
     \<and> int (length body) = 100000 \<and> 100000 \<le> MAX_OBJECT_SIZE
     \<and> cache_gettext ''/10'' \<lparr>written = [], credit = None\<rparr> s
         = Some (Inr ((False, \<lparr>written = [], credit = None\<rparr>), s))
     \<and> cache_insert ''/10'' body 100000 s = None
     \<and> bnd (cache_insert ''/10'' body 100000)
            (\<lambda>_. cache_gettext ''/10'' \<lparr>written = [], credit = None\<rparr>) s = None"
proof (rule slow_reader_run)
  fix s ys
  assume r: "run slow_reader (after_init, []) = Some (Inr (s, [0]))"
    and wf: "cache_wf s [0] (ys @ [0])" and mx: "\<not> mutex s"
    and nu: "\<forall>x\<in>set (ys @ [0]). URI s x \<noteq> Some ''/10''"
    and ov: "MAX_CACHE_SIZE < total_len s (ys @ [0]) + 100000"
  have ok: "list_all op_ok slow_reader"
    by (simp add: slow_reader_def body_def MAX_OBJECT_SIZE_def)
  have len: "int (length body) = 100000" "(100000::int) \<le> MAX_OBJECT_SIZE"
    by (simp_all add: body_def MAX_OBJECT_SIZE_def)
  have pin: "(0::nat) \<in> set [0]" by simp
  have miss: "cache_gettext ''/10'' \<lparr>written = [], credit = None\<rparr> s
         = Some (Inr ((False, \<lparr>written = [], credit = None\<rparr>), s))"
    by (rule cache_gettext_miss [OF wf mx nu])
  have ins: "cache_insert ''/10'' body 100000 s = None"
    by (rule insert_blocked(1) [OF wf mx pin nu ov])
  then have "bnd (cache_insert ''/10'' body 100000)
            (\<lambda>_. cache_gettext ''/10'' \<lparr>written = [], credit = None\<rparr>) s = None"
    by (simp add: bnd_None)
  then show ?thesis using ok init_boot r len miss ins by blast
qed

text \<open>
  C10. In every state the cache reaches, a listed block is allocated and its
  \<^verbatim>\<open>ref_cont\<close> is one more than the number of readers that hold it: at least 1, exactly
  1 without a reader. \<^verbatim>\<open>block_free\<close> on a listed block therefore never returns.
\<close>

theorem listed_ref_cont:
  assumes "list_all op_ok ops" "cache_init s0 = Some (Inr ((), s1))"
    "run ops (s1, []) = Some (Inr (s, ps))" "cache_list s xs" "a \<in> set xs"
  shows "(\<exists>b. heap s a = Some b \<and> ref_cont b = 1 + int (count_list ps a) \<and> 1 \<le> ref_cont b
            \<and> (a \<notin> set ps \<longrightarrow> ref_cont b = 1))
         \<and> block_free a s = None"
proof -
  note wf = reach_wf [OF assms(1-4)]
  have ok: "block_ok s ps a" using wf(1) assms(5) by (simp add: cache_wf_def)
  have "live s a" using wf(1) assms(5) by (simp add: cache_wf_def linked_def)
  then obtain b where b: "heap s a = Some b" "RC s a = ref_cont b" using live_blk by blast
  have rc: "ref_cont b = 1 + int (count_list ps a)" using ok b(2) by (simp add: block_ok_def)
  then have "RC s a \<noteq> 0" using b(2) by simp
  then have "block_free a s = None" by (rule block_free_spin)
  then show ?thesis using b(1) rc by (auto simp: count_list_0_iff)
qed

theorem listed_ref_cont_witness:
  "list_all op_ok [Insert ''/a'' ''xyz'' 3, Pin ''/a'']
   \<and> cache_init boot = Some (Inr ((), after_init))
   \<and> run [Insert ''/a'' ''xyz'' 3, Pin ''/a''] (after_init, []) = Some (Inr (one_pinned, [0]))
   \<and> cache_list one_pinned [0] \<and> (0::nat) \<in> set [0]
   \<and> (\<exists>b. heap one_pinned 0 = Some b \<and> ref_cont b = 2)
   \<and> block_free 0 one_pinned = None"
proof -
  have ok: "list_all op_ok [Insert ''/a'' ''xyz'' 3, Pin ''/a'']"
    by (simp add: MAX_OBJECT_SIZE_def)
  have m: "(0::nat) \<in> set [0]" by simp
  from listed_ref_cont [OF ok init_boot run_pin_a list_one_pinned m]
  show ?thesis using ok init_boot run_pin_a list_one_pinned by auto
qed


end
